theory Spec2Isabelle
  imports Main "HOL-Library.Word"
begin

unbundle bit_operations_syntax

section \<open>Machine types and constants\<close>

text \<open>
  The runtime is modelled for a 64-bit platform: \<open>uintptr\<close>, \<open>uint\<close> and \<open>uint64\<close> are
  64-bit words whose arithmetic wraps around, \<open>uint32\<close> is a 32-bit word. Go's shifts
  \<open>x << s\<close> and \<open>x >> s\<close> on unsigned operands give 0 once \<open>s\<close> reaches the width, which
  is what \<open>push_bit\<close> and \<open>drop_bit\<close> do on words.
\<close>

type_synonym uintptr = "64 word"
type_synonym uint64 = "64 word"
type_synonym uint = "64 word"
type_synonym uint32 = "32 word"

text \<open>
  Modelled from the spec: the constant \<open>pageSize\<close> is declared outside the sources verified here;
  the spec fixes the page as "the fixed allocation granularity (a constant, e.g. 8KiB)".
\<close>

definition pageSize :: uintptr where
  "pageSize = 8192"

text \<open>\<open>const pageCachePages = 8 * unsafe.Sizeof(pageCache{}.cache)\<close>: the field is a \<open>uint64\<close>.\<close>

definition pageCachePages :: uintptr where
  "pageCachePages = 8 * 8"

text \<open>
  Modelled from the spec: \<open>sys.TrailingZeros64\<close> and \<open>sys.OnesCount64\<close>, intrinsics of the
  Go library, are not among the sources verified here. The spec has the single-page
  allocation find "the lowest set bit \<open>i\<close> in the free bitmap (trailing-zero scan)" and the
  run allocation return "the count of bits" set: the number of trailing zero bits of \<open>x\<close>
  (64 for \<open>x = 0\<close>) and the number of one bits of \<open>x\<close>.
\<close>

definition TrailingZeros64 :: "uint64 \<Rightarrow> nat" where
  "TrailingZeros64 x = length (takeWhile (\<lambda>i. \<not> bit x i) [0..<64])"

definition OnesCount64 :: "uint64 \<Rightarrow> nat" where
  "OnesCount64 x = length (filter (bit x) [0..<64])"

section \<open>The page cache\<close>

record pageCache =
  base :: uintptr
  cache :: uint64
  scav :: uint64

text \<open>The zero value \<open>pageCache{}\<close>.\<close>

definition pageCache_zero :: pageCache where
  "pageCache_zero = \<lparr>base = 0, cache = 0, scav = 0\<rparr>"

definition empty :: "pageCache \<Rightarrow> bool" where
  "empty c = (cache c = 0)"

text \<open>
  Modelled from the spec: \<open>findBitRange64\<close> is called by \<open>allocN\<close> but is not among the
  sources verified here. The spec says of the run allocation that it "finds the lowest-indexed run
  of \<open>n\<close> consecutive free bits within the 64-bit bitmap (fails if none exists)"; the
  caller reads any result of 64 or more as the failure.
\<close>

definition run_at :: "uint64 \<Rightarrow> nat \<Rightarrow> nat \<Rightarrow> bool" where
  "run_at c n i = (if i + n \<le> 64 then list_all (\<lambda>k. bit c (i + k)) [0..<n] else False)"

definition findBitRange64 :: "uint64 \<Rightarrow> uint \<Rightarrow> uint" where
  "findBitRange64 c n =
     (case find (run_at c (unat n)) [0..<64] of
        Some i \<Rightarrow> of_nat i
      | None \<Rightarrow> 64)"

text \<open>
  \<open>allocN\<close> and \<open>alloc\<close> mutate the cache through the receiver pointer; the model returns
  the pair of results together with the cache as it is left.
\<close>

definition allocN :: "pageCache \<Rightarrow> uintptr \<Rightarrow> (uintptr \<times> uintptr) \<times> pageCache" where
  "allocN c npages =
     (let i = findBitRange64 (cache c) npages in
      if i \<ge> 64 then ((0, 0), c)
      else
        let mask = push_bit (unat i) (push_bit (unat npages) (1 :: uint64) - 1);
            scv = OnesCount64 (scav c AND mask);
            c1 = c\<lparr>cache := cache c AND NOT mask\<rparr>;
            c2 = c1\<lparr>scav := scav c1 AND NOT mask\<rparr>
        in ((base c2 + i * pageSize, of_nat scv * pageSize), c2))"

definition alloc :: "pageCache \<Rightarrow> uintptr \<Rightarrow> (uintptr \<times> uintptr) \<times> pageCache" where
  "alloc c npages =
     (if cache c = 0 then ((0, 0), c)
      else if npages = 1 then
        let i = (of_nat (TrailingZeros64 (cache c)) :: uintptr);
            scv = drop_bit (unat i) (scav c) AND 1;
            c1 = c\<lparr>cache := cache c AND NOT (push_bit (unat i) 1)\<rparr>;
            c2 = c1\<lparr>scav := scav c1 AND NOT (push_bit (unat i) 1)\<rparr>
        in ((base c2 + i * pageSize, scv * pageSize), c2)
      else allocN c npages)"

text \<open>
  Repeated single-page allocation, as a caller's loop \<open>for k times { c.alloc(1) }\<close> would
  do it: the addresses returned, in the order of the calls.
\<close>

fun repeat_alloc1 :: "nat \<Rightarrow> pageCache \<Rightarrow> uintptr list" where
  "repeat_alloc1 0 c = []"
| "repeat_alloc1 (Suc k) c = (case alloc c 1 of ((a, s), c') \<Rightarrow> a # repeat_alloc1 k c')"

text \<open>
  The cache of the spec's scenario: free pages at offsets 0, 1, 2, 5, 9, 20, 21, 22, 40 and
  63 of the window at address \<open>0x400000\<close>; page 5 is scavenged.
\<close>

definition spec_cache :: pageCache where
  "spec_cache = \<lparr>base = 0x400000, cache = 0x8000010000700227, scav = 0x20\<rparr>"

section \<open>The fixed-size allocator\<close>

text \<open>
  Fatal outcomes are values: \<open>Throw msg\<close> is the runtime's \<open>throw(msg)\<close>, \<open>NilDeref\<close> the
  fault of a store through a nil pointer, \<open>IndexOutOfRange\<close> that of an array index
  outside its bounds.
\<close>

datatype error = Throw string | NilDeref | IndexOutOfRange

text \<open>
  \<open>_FixAllocChunk\<close> is declared outside the sources verified here; the comment on \<open>init\<close> gives
  the ceiling as 16K. \<open>unsafe.Sizeof(mlink{})\<close> is the size of one pointer, the only field
  of \<open>mlink\<close> that takes space.
\<close>

definition FixAllocChunk :: uintptr where
  "FixAllocChunk = 16384"

definition sizeof_mlink :: uintptr where
  "sizeof_mlink = 8"

text \<open>
  The struct \<open>fixalloc\<close>. Its methods \<open>init\<close>, \<open>alloc\<close> and \<open>free\<close> are \<open>fixalloc_init\<close>,
  \<open>fixalloc_alloc\<close> and \<open>fixalloc_free\<close> below, \<open>alloc\<close> being the method of the page cache
  above. Field names carry the suffix \<open>_f\<close>. The callback \<open>first\<close> is kept
  as the flag \<open>first \<noteq> nil\<close>; its calls are recorded in the memory state below. Pointers
  are addresses, \<open>nil\<close> is 0.
\<close>

record fixalloc =
  size_f :: uintptr
  first_f :: bool
  arg_f :: uintptr
  list_f :: uintptr
  chunk_f :: uintptr
  nchunk_f :: uint32
  nalloc_f :: uint32
  inuse_f :: uintptr
  stat_f :: uintptr
  zero_f :: bool

text \<open>
  What the allocator shares with its surroundings: \<open>mem\<close> gives the pointer-sized word
  stored at an address (the \<open>next\<close> field of the \<open>mlink\<close> at that address), \<open>first_calls\<close>
  lists the calls \<open>first(arg, p)\<close> made so far, and \<open>sys_chunks\<close> lists the addresses that
  the system allocator will hand out, one per call.
\<close>

record sysmem =
  mem :: "uintptr \<Rightarrow> uintptr"
  first_calls :: "(uintptr \<times> uintptr) list"
  sys_chunks :: "uintptr list"

text \<open>
  Modelled from the spec: \<open>persistentalloc\<close> is not among the sources verified here. The spec has
  \<open>alloc\<close> "obtain a new chunk from the underlying system allocator sized \<open>nalloc\<close>", chunks
  that are never returned. The model takes the addresses handed out as an input, so that
  nothing is assumed about them; when none is left the request is fatal.
\<close>

definition persistentalloc :: "sysmem \<Rightarrow> uintptr \<Rightarrow> error + (uintptr \<times> sysmem)" where
  "persistentalloc w n =
     (case sys_chunks w of
        [] \<Rightarrow> Inl (Throw ''runtime: cannot allocate memory'')
      | a # as \<Rightarrow> Inr (a, w\<lparr>sys_chunks := as\<rparr>))"

text \<open>
  \<open>memclrNoHeapPointers(v, n)\<close> zeroes the \<open>n\<close> bytes from address \<open>v\<close>: every word of
  \<open>mem\<close> whose address lies in that range becomes 0.
\<close>

definition memclrNoHeapPointers :: "uintptr \<Rightarrow> uintptr \<Rightarrow> (uintptr \<Rightarrow> uintptr) \<Rightarrow> (uintptr \<Rightarrow> uintptr)" where
  "memclrNoHeapPointers v n m = (\<lambda>a. if a - v < n then 0 else m a)"

definition fixalloc_init :: "fixalloc \<Rightarrow> uintptr \<Rightarrow> bool \<Rightarrow> uintptr \<Rightarrow> uintptr \<Rightarrow> error + fixalloc" where
  "fixalloc_init f size0 first arg stat =
     (if size0 > FixAllocChunk then Inl (Throw ''runtime: fixalloc size too large'')
      else
        let size = (if size0 < sizeof_mlink then sizeof_mlink else size0) in
        Inr (f\<lparr>size_f := size, first_f := first, arg_f := arg, list_f := 0, chunk_f := 0,
               nchunk_f := 0, nalloc_f := ucast (FixAllocChunk div size * size), inuse_f := 0,
               stat_f := stat, zero_f := True\<rparr>))"

definition fixalloc_alloc :: "fixalloc \<Rightarrow> sysmem \<Rightarrow> error + (uintptr \<times> fixalloc \<times> sysmem)" where
  "fixalloc_alloc f w =
     (if size_f f = 0 then Inl (Throw ''runtime: internal error'')
      else if list_f f \<noteq> 0 then
        let v = list_f f;
            f1 = f\<lparr>list_f := mem w (list_f f)\<rparr>;
            f2 = f1\<lparr>inuse_f := inuse_f f1 + size_f f1\<rparr>;
            w1 = (if zero_f f2 then w\<lparr>mem := memclrNoHeapPointers v (size_f f2) (mem w)\<rparr> else w)
        in Inr (v, f2, w1)
      else
        case (if ucast (nchunk_f f) < size_f f
              then (case persistentalloc w (ucast (nalloc_f f)) of
                      Inl e \<Rightarrow> Inl e
                    | Inr (a, w1) \<Rightarrow> Inr (f\<lparr>chunk_f := a, nchunk_f := nalloc_f f\<rparr>, w1))
              else Inr (f, w)) of
          Inl e \<Rightarrow> Inl e
        | Inr (f1, w1) \<Rightarrow>
            let v = chunk_f f1;
                w2 = (if first_f f1 then w1\<lparr>first_calls := first_calls w1 @ [(arg_f f1, v)]\<rparr> else w1);
                f2 = f1\<lparr>chunk_f := chunk_f f1 + size_f f1\<rparr>;
                f3 = f2\<lparr>nchunk_f := nchunk_f f2 - ucast (size_f f2)\<rparr>;
                f4 = f3\<lparr>inuse_f := inuse_f f3 + size_f f3\<rparr>
            in Inr (v, f4, w2))"

definition fixalloc_free :: "fixalloc \<Rightarrow> sysmem \<Rightarrow> uintptr \<Rightarrow> error + (fixalloc \<times> sysmem)" where
  "fixalloc_free f w p =
     (let f1 = f\<lparr>inuse_f := inuse_f f - size_f f\<rparr>;
          v = p
      in if v = 0 then Inl NilDeref
         else Inr (f1\<lparr>list_f := v\<rparr>, w\<lparr>mem := (mem w)(v := list_f f1)\<rparr>))"

text \<open>Sequences of calls: \<open>k\<close> allocations in a row, and frees of a list of pointers in order.\<close>

fun allocs :: "nat \<Rightarrow> fixalloc \<Rightarrow> sysmem \<Rightarrow> error + (uintptr list \<times> fixalloc \<times> sysmem)" where
  "allocs 0 f w = Inr ([], f, w)"
| "allocs (Suc k) f w =
     (case fixalloc_alloc f w of
        Inl e \<Rightarrow> Inl e
      | Inr (v, f1, w1) \<Rightarrow>
          (case allocs k f1 w1 of
             Inl e \<Rightarrow> Inl e
           | Inr (vs, f2, w2) \<Rightarrow> Inr (v # vs, f2, w2)))"

fun frees :: "uintptr list \<Rightarrow> fixalloc \<Rightarrow> sysmem \<Rightarrow> error + (fixalloc \<times> sysmem)" where
  "frees [] f w = Inr (f, w)"
| "frees (p # ps) f w =
     (case fixalloc_free f w p of
        Inl e \<Rightarrow> Inl e
      | Inr (f1, w1) \<Rightarrow> frees ps f1 w1)"

text \<open>Any sequence of calls on an allocator, as a caller may issue them.\<close>

datatype fix_op = Alloc | Free uintptr

fun run_ops :: "fix_op list \<Rightarrow> fixalloc \<Rightarrow> sysmem \<Rightarrow> error + (fixalloc \<times> sysmem)" where
  "run_ops [] f w = Inr (f, w)"
| "run_ops (Alloc # ops) f w =
     (case fixalloc_alloc f w of
        Inl e \<Rightarrow> Inl e
      | Inr (v, f1, w1) \<Rightarrow> run_ops ops f1 w1)"
| "run_ops (Free p # ops) f w =
     (case fixalloc_free f w p of
        Inl e \<Rightarrow> Inl e
      | Inr (f1, w1) \<Rightarrow> run_ops ops f1 w1)"

text \<open>
  The objects at the addresses \<open>xs\<close>, each \<open>s\<close> bytes long, are separate: none is at the nil
  address and no two of them overlap.
\<close>

definition separate :: "uintptr \<Rightarrow> uintptr list \<Rightarrow> bool" where
  "separate s xs =
     (distinct xs \<and> list_all (\<lambda>x. x \<noteq> 0) xs \<and>
      list_all (\<lambda>x. list_all (\<lambda>y. x = y \<or> \<not> y - x < s) xs) xs)"

text \<open>The free list starting at \<open>h\<close> runs through exactly the nodes \<open>xs\<close> and ends in \<open>t\<close>.\<close>

fun chain :: "(uintptr \<Rightarrow> uintptr) \<Rightarrow> uintptr \<Rightarrow> uintptr list \<Rightarrow> uintptr \<Rightarrow> bool" where
  "chain m h [] t = (h = t)"
| "chain m h (x # xs) t = (h = x \<and> x \<noteq> 0 \<and> chain m (m x) xs t)"

text \<open>
  The chunks \<open>cs\<close> that the system allocator hands out are sane: none starts at the nil
  address, none wraps around the end of the address space, and any two of them are at least
  \<open>_FixAllocChunk\<close> bytes apart.
\<close>

definition chunks_sane :: "uintptr list \<Rightarrow> bool" where
  "chunks_sane cs =
     (distinct cs \<and>
      list_all (\<lambda>a. a \<noteq> 0 \<and> unat a + unat FixAllocChunk \<le> 2 ^ 64) cs \<and>
      list_all (\<lambda>a. list_all (\<lambda>b. a = b \<or> unat a + unat FixAllocChunk \<le> unat b \<or>
                                  unat b + unat FixAllocChunk \<le> unat a) cs) cs)"

text \<open>
  The objects of \<open>s\<close> bytes carved from the chunks \<open>cs\<close>, \<open>per\<close> from each, in the order in
  which \<open>alloc\<close> hands them out; and the states in which \<open>alloc\<close> carves: the free list is
  empty, chunks hold \<open>per\<close> objects, and the current chunk still holds \<open>r\<close> of them.
\<close>

definition carve :: "uintptr \<Rightarrow> nat \<Rightarrow> uintptr list \<Rightarrow> uintptr list" where
  "carve s per cs = concat (map (\<lambda>a. map (\<lambda>t. a + of_nat t * s) [0..<per]) cs)"

definition carving :: "fixalloc \<Rightarrow> nat \<Rightarrow> nat \<Rightarrow> bool" where
  "carving f per r =
     (list_f f = 0 \<and> size_f f \<noteq> 0 \<and> 0 < per \<and> per * unat (size_f f) \<le> 16384 \<and>
      unat (nalloc_f f) = per * unat (size_f f) \<and>
      unat (nchunk_f f) = r * unat (size_f f) \<and> r \<le> per)"

text \<open>
  A run used below: the zero value of the struct, the allocator after
  \<open>init(4096, first, arg, stat)\<close> with a callback, a memory whose system allocator will hand
  out two chunks, and the state after five allocations.
\<close>

definition fixalloc_zero :: fixalloc where
  "fixalloc_zero = \<lparr>size_f = 0, first_f = False, arg_f = 0, list_f = 0, chunk_f = 0, nchunk_f = 0,
     nalloc_f = 0, inuse_f = 0, stat_f = 0, zero_f = False\<rparr>"

definition sysmem0 :: sysmem where
  "sysmem0 = \<lparr>mem = (\<lambda>a. 0), first_calls = [], sys_chunks = [0xC000000000, 0xC000400000]\<rparr>"

definition fixalloc_4k :: fixalloc where
  "fixalloc_4k = \<lparr>size_f = 4096, first_f = True, arg_f = 7, list_f = 0, chunk_f = 0, nchunk_f = 0,
     nalloc_f = 16384, inuse_f = 0, stat_f = 0, zero_f = True\<rparr>"

definition reuse_ps :: "uintptr list" where
  "reuse_ps = [0xC000000000, 0xC000001000, 0xC000002000, 0xC000003000, 0xC000400000]"

definition reuse_qs :: "uintptr list" where
  "reuse_qs = [0xC000002000, 0xC000000000, 0xC000400000, 0xC000001000, 0xC000003000]"

definition fixalloc_5 :: fixalloc where
  "fixalloc_5 = fixalloc_4k\<lparr>chunk_f := 0xC000401000, nchunk_f := 12288, inuse_f := 20480\<rparr>"

definition sysmem_5 :: sysmem where
  "sysmem_5 = sysmem0\<lparr>first_calls := map (Pair 7) reuse_ps, sys_chunks := []\<rparr>"

section \<open>The central page allocator\<close>

text \<open>
  Of the central allocator the sources verified here hold \<open>pageCache.flush\<close> and
  \<open>pageAlloc.allocToCache\<close>; the chunk bitmaps, the address arithmetic, the summary tree
  and the search are declared elsewhere. Each of them is modelled below from what the spec
  says and from how the two functions use it.
\<close>

text \<open>
  Modelled from the spec: \<open>pallocChunkPages\<close> and \<open>pallocChunkBytes\<close> are not among the
  sources verified here; a chunk is "a contiguous, fixed-size span of address space (a constant
  number of pages, e.g. 512)".
\<close>

definition pallocChunkPages :: nat where
  "pallocChunkPages = 512"

definition pallocChunkBytes :: uintptr where
  "pallocChunkBytes = of_nat pallocChunkPages * pageSize"

type_synonym chunkIdx = uint

text \<open>
  Modelled from the spec: \<open>chunkIndex\<close>, \<open>chunkBase\<close>, \<open>chunkPageIndex\<close> and \<open>alignDown\<close> are
  not among the sources verified here. Chunks tile the address space from address 0: the index of
  the chunk holding an address, the first address of a chunk, the index within its chunk
  of the page holding an address, and rounding down to a multiple of a power of two.
\<close>

definition chunkIndex :: "uintptr \<Rightarrow> chunkIdx" where
  "chunkIndex p = p div pallocChunkBytes"

definition chunkBase :: "chunkIdx \<Rightarrow> uintptr" where
  "chunkBase ci = ci * pallocChunkBytes"

definition chunkPageIndex :: "uintptr \<Rightarrow> uint" where
  "chunkPageIndex p = p mod pallocChunkBytes div pageSize"

definition alignDown :: "uintptr \<Rightarrow> uintptr \<Rightarrow> uintptr" where
  "alignDown n a = n AND NOT (a - 1)"

text \<open>
  Modelled from the spec: the types \<open>pageBits\<close> and \<open>pallocData\<close> and their methods are not
  among the sources verified here. A chunk owns two bitmaps of one bit per page, held in 64-bit
  words: word \<open>i div 64\<close>, bit \<open>i mod 64\<close> for page \<open>i\<close>. \<open>allocToCache\<close> takes the complement
  of \<open>pages64\<close> as the free bits of the cache, so a set bit of \<open>pallocBits\<close> is a page in
  use; a set bit of \<open>scavenged\<close> is a scavenged page.
\<close>

type_synonym pageBits = "nat \<Rightarrow> uint64"

record pallocData =
  pallocBits :: pageBits
  scavenged :: pageBits

definition pbit :: "pageBits \<Rightarrow> nat \<Rightarrow> bool" where
  "pbit b i = bit (b (i div 64)) (i mod 64)"

text \<open>
  \<open>pages64\<close> and \<open>block64\<close> read the 64-bit word that holds page \<open>i\<close>; \<open>allocPages64\<close> sets
  the bits of \<open>alloc\<close> in that word of \<open>pallocBits\<close>, \<open>clearBlock64\<close> clears the bits of \<open>v\<close>
  in that word. Their callers pass page indices below \<open>pallocChunkPages\<close>.
\<close>

definition pages64 :: "pallocData \<Rightarrow> uint \<Rightarrow> uint64" where
  "pages64 d i = pallocBits d (unat i div 64)"

definition block64 :: "pageBits \<Rightarrow> uint \<Rightarrow> uint64" where
  "block64 b i = b (unat i div 64)"

definition allocPages64 :: "pallocData \<Rightarrow> uint \<Rightarrow> uint64 \<Rightarrow> pallocData" where
  "allocPages64 d i alloc' =
     d\<lparr>pallocBits := (pallocBits d)(unat i div 64 := pallocBits d (unat i div 64) OR alloc')\<rparr>"

definition clearBlock64 :: "pageBits \<Rightarrow> uint \<Rightarrow> uint64 \<Rightarrow> pageBits" where
  "clearBlock64 b i v = b(unat i div 64 := b (unat i div 64) AND NOT v)"

text \<open>
  \<open>free1\<close> clears the bit of page \<open>i\<close> in \<open>pallocBits\<close>; \<open>setRange\<close> sets the bits of the
  \<open>n\<close> pages from \<open>i\<close>. A page index outside the chunk indexes the array of words outside
  its bounds, which is fatal in Go.
\<close>

definition free1 :: "pallocData \<Rightarrow> uint \<Rightarrow> error + pallocData" where
  "free1 d i =
     (if unat i < pallocChunkPages
      then Inr (d\<lparr>pallocBits := (pallocBits d)
                  (unat i div 64 := pallocBits d (unat i div 64) AND NOT (push_bit (unat i mod 64) 1))\<rparr>)
      else Inl IndexOutOfRange)"

definition set1 :: "nat \<Rightarrow> pageBits \<Rightarrow> pageBits" where
  "set1 j b = b(j div 64 := b (j div 64) OR push_bit (j mod 64) 1)"

definition setRange :: "pageBits \<Rightarrow> uint \<Rightarrow> uint \<Rightarrow> error + pageBits" where
  "setRange b i n =
     (if unat i < pallocChunkPages \<and> unat i + unat n \<le> pallocChunkPages
      then Inr (fold set1 [unat i..<unat i + unat n] b)
      else Inl IndexOutOfRange)"

definition free_page :: "pallocData \<Rightarrow> nat \<Rightarrow> bool" where
  "free_page d i = (\<not> pbit (pallocBits d) i)"

text \<open>
  Modelled from the spec: the method \<open>find\<close> of a chunk's bitmap is not among the given
  sources; "at the leaf, scan the chunk's alloc bitmap for the first run of \<open>n\<close>
  consecutive free bits", from the page index \<open>searchIdx\<close> on. The caller reads
  \<open>^uint(0)\<close> as the failure; the second result of the Go function is dropped by the
  caller and left out.
\<close>

definition pallocData_find :: "pallocData \<Rightarrow> uintptr \<Rightarrow> uint \<Rightarrow> uint" where
  "pallocData_find d npages searchIdx =
     (case find (\<lambda>j. list_all (free_page d) [j..<j + unat npages])
             [unat searchIdx..<pallocChunkPages + 1 - unat npages] of
        Some j \<Rightarrow> of_nat j
      | None \<Rightarrow> - 1)"

text \<open>
  Modelled from the spec: the type \<open>pallocSum\<close> is not among the sources verified here. A summary
  entry "records, for the region it summarizes, (maxFreeRunLength, freePagesAtStart,
  freePagesAtEnd)"; the zero entry, which \<open>allocToCache\<close> tests for, is the one of a
  region without a free page.
\<close>

record pallocSum =
  sum_start :: nat
  sum_max :: nat
  sum_end :: nat

definition pallocSum_zero :: pallocSum where
  "pallocSum_zero = \<lparr>sum_start = 0, sum_max = 0, sum_end = 0\<rparr>"

fun max_run :: "bool list \<Rightarrow> nat \<Rightarrow> nat \<Rightarrow> nat" where
  "max_run [] cur best = max cur best"
| "max_run (x # xs) cur best =
     (if x then max_run xs (Suc cur) best else max_run xs 0 (max cur best))"

definition summarize :: "pallocData \<Rightarrow> pallocSum" where
  "summarize d =
     \<lparr>sum_start = length (takeWhile (free_page d) [0..<pallocChunkPages]),
      sum_max = max_run (map (free_page d) [0..<pallocChunkPages]) 0 0,
      sum_end = length (takeWhile (free_page d) (rev [0..<pallocChunkPages]))\<rparr>"

text \<open>
  The part of \<open>pageAlloc\<close> that the two functions touch: the leaf level of the summary
  (\<open>p.summary[len(p.summary)-1]\<close>), the chunks (\<open>p.chunkOf\<close>), the search address and the
  chunk index \<open>end\<close> one past the last chunk tracked (field \<open>p_end\<close> here).
\<close>

record pageAlloc =
  summary :: "chunkIdx \<Rightarrow> pallocSum"
  chunks :: "chunkIdx \<Rightarrow> pallocData"
  searchAddr :: uintptr
  p_end :: chunkIdx

text \<open>
  Modelled from the spec: \<open>maxSearchAddr\<close> and the comparison \<open>lessThan\<close> of \<open>offAddr\<close> are
  not among the sources verified here. The search address "may be reset to a sentinel max value to
  mean out of memory", the largest address; addresses compare as unsigned numbers.
\<close>

definition maxSearchAddr :: uintptr where
  "maxSearchAddr = - 1"

definition lessThan_offAddr :: "uintptr \<Rightarrow> uintptr \<Rightarrow> bool" where
  "lessThan_offAddr a b = (a < b)"

text \<open>
  Modelled from the spec: \<open>pageAlloc.find\<close> is not among the sources verified here; it "locates
  the lowest-addressed free run of at least \<open>n\<close> pages at or above \<open>searchAddr\<close>" and
  "fails (address == 0) when no region satisfies the request within tracked bounds, or
  when \<open>chunkIndex(searchAddr) >= end\<close>". Pages are numbered through the address space:
  page \<open>g\<close> is page \<open>g mod pallocChunkPages\<close> of chunk \<open>g div pallocChunkPages\<close>. The second
  result of the Go function is dropped by the caller and left out.
\<close>

definition page_free_at :: "pageAlloc \<Rightarrow> nat \<Rightarrow> bool" where
  "page_free_at p g = free_page (chunks p (of_nat (g div pallocChunkPages))) (g mod pallocChunkPages)"

definition pageAlloc_find :: "pageAlloc \<Rightarrow> uintptr \<Rightarrow> uintptr" where
  "pageAlloc_find p npages =
     (if chunkIndex (searchAddr p) \<ge> p_end p then 0
      else
        case find (\<lambda>g. list_all (page_free_at p) [g..<g + unat npages])
               [unat (searchAddr p) div unat pageSize..<
                unat (p_end p) * pallocChunkPages + 1 - unat npages] of
          Some g \<Rightarrow> of_nat g * pageSize
        | None \<Rightarrow> 0)"

text \<open>
  Modelled from the spec: \<open>pageAlloc.update\<close> is not among the sources verified here; it "updates
  every level of the summary tree whose region overlaps" the pages given and "must
  recompute affected leaf summaries from the bitmap". Only the leaf level is read by the
  functions verified here, so only it is kept; the flags \<open>contig\<close> and \<open>alloc\<close> tell the Go function
  how to get to the same summaries faster.
\<close>

definition update :: "pageAlloc \<Rightarrow> uintptr \<Rightarrow> uintptr \<Rightarrow> bool \<Rightarrow> bool \<Rightarrow> pageAlloc" where
  "update p b npages contig alloc' =
     p\<lparr>summary := (\<lambda>k. if chunkIndex b \<le> k \<and> k \<le> chunkIndex (b + npages * pageSize - 1)
                        then summarize (chunks p k) else summary p k)\<rparr>"

text \<open>
  \<open>pageCache.flush\<close>. The loop over the 64 bits is \<open>flush_loop\<close>, with \<open>i\<close> the loop
  counter; \<open>p.chunkOf(ci)\<close> is a pointer to chunk \<open>ci\<close>, so both calls write into
  \<open>chunks p ci\<close>. The lock assertion has no effect on the state and is left out.
\<close>

function flush_loop :: "pageCache \<Rightarrow> chunkIdx \<Rightarrow> uint \<Rightarrow> nat \<Rightarrow> pageAlloc \<Rightarrow> error + pageAlloc" where
  "flush_loop c ci pi i p =
     (if i < 64 then
        case (if cache c AND push_bit i 1 \<noteq> 0
              then (case free1 (chunks p ci) (pi + of_nat i) of
                      Inl e \<Rightarrow> Inl e
                    | Inr d \<Rightarrow> Inr (p\<lparr>chunks := (chunks p)(ci := d)\<rparr>))
              else Inr p) of
          Inl e \<Rightarrow> Inl e
        | Inr p1 \<Rightarrow>
            (case (if scav c AND push_bit i 1 \<noteq> 0
                   then (case setRange (scavenged (chunks p1 ci)) (pi + of_nat i) 1 of
                           Inl e \<Rightarrow> Inl e
                         | Inr s \<Rightarrow> Inr (p1\<lparr>chunks := (chunks p1)(ci := (chunks p1 ci)\<lparr>scavenged := s\<rparr>)\<rparr>))
                   else Inr p1) of
               Inl e \<Rightarrow> Inl e
             | Inr p2 \<Rightarrow> flush_loop c ci pi (i + 1) p2)
      else Inr p)"
  by pat_completeness auto
termination
  by (relation "measure (\<lambda>(c, ci, pi, i, p). 64 - i)") auto

declare flush_loop.simps [simp del]

definition flush :: "pageCache \<Rightarrow> pageAlloc \<Rightarrow> error + (pageCache \<times> pageAlloc)" where
  "flush c p =
     (if empty c then Inr (c, p)
      else
        let ci = chunkIndex (base c);
            pi = chunkPageIndex (base c)
        in case flush_loop c ci pi 0 p of
             Inl e \<Rightarrow> Inl e
           | Inr p1 \<Rightarrow>
               let b = base c;
                   p2 = (if lessThan_offAddr b (searchAddr p1) then p1\<lparr>searchAddr := b\<rparr> else p1);
                   p3 = update p2 (base c) pageCachePages False False
               in Inr (pageCache_zero, p3))"

text \<open>
  \<open>pageAlloc.allocToCache\<close>. \<open>allocToCache_take\<close> is the part after the \<open>if\<close>/\<open>else\<close>
  (from "Set the page bits as allocated" on), where the pointer \<open>chunk\<close> refers to chunk
  \<open>k\<close> of \<open>p\<close> and \<open>c\<close> is the cache built by the branch taken.
\<close>

definition allocToCache_take :: "pageAlloc \<Rightarrow> chunkIdx \<Rightarrow> pageCache \<Rightarrow> pageCache \<times> pageAlloc" where
  "allocToCache_take p k c =
     (let cpi = chunkPageIndex (base c);
          d1 = allocPages64 (chunks p k) cpi (cache c);
          d2 = d1\<lparr>scavenged := clearBlock64 (scavenged d1) cpi (cache c AND scav c)\<rparr>;
          p1 = p\<lparr>chunks := (chunks p)(k := d2)\<rparr>;
          p2 = update p1 (base c) pageCachePages False True;
          p3 = p2\<lparr>searchAddr := base c + pageSize * (pageCachePages - 1)\<rparr>
      in (c, p3))"

definition allocToCache :: "pageAlloc \<Rightarrow> error + (pageCache \<times> pageAlloc)" where
  "allocToCache p =
     (if chunkIndex (searchAddr p) \<ge> p_end p then Inr (pageCache_zero, p)
      else
        let ci = chunkIndex (searchAddr p) in
        if summary p ci \<noteq> pallocSum_zero then
          let chunk = chunks p ci;
              j = pallocData_find chunk 1 (chunkPageIndex (searchAddr p))
          in if j = - 1 then Inl (Throw ''bad summary data'')
             else Inr (allocToCache_take p ci
                    \<lparr>base = chunkBase ci + alignDown j 64 * pageSize,
                     cache = NOT (pages64 chunk j),
                     scav = block64 (scavenged chunk) j\<rparr>)
        else
          let addr = pageAlloc_find p 1 in
          if addr = 0 then Inr (pageCache_zero, p\<lparr>searchAddr := maxSearchAddr\<rparr>)
          else
            let ci = chunkIndex addr;
                chunk = chunks p ci
            in Inr (allocToCache_take p ci
                 \<lparr>base = alignDown addr (64 * pageSize),
                  cache = NOT (pages64 chunk (chunkPageIndex addr)),
                  scav = block64 (scavenged chunk) (chunkPageIndex addr)\<rparr>))"

text \<open>
  The invariant of the search address that the comment above the last assignment of
  \<open>allocToCache\<close> states: "p.searchAddr is not allowed to point into unmapped heap memory
  unless it is maxSearchAddr". The chunks tracked are those below \<open>end\<close>, so the search
  address lies in a chunk below \<open>end\<close> or is the sentinel.
\<close>

definition searchAddr_mapped :: "pageAlloc \<Rightarrow> bool" where
  "searchAddr_mapped p = (chunkIndex (searchAddr p) < p_end p \<or> searchAddr p = maxSearchAddr)"

text \<open>
  States used below. In \<open>spec_alloc\<close> two chunks are tracked: chunk 0 is fully in use, and
  chunk 1 has the free pages of the spec's scenario in its first 64-page window (page 5 of
  them scavenged) and is in use elsewhere; the search address is the base of chunk 1.
  \<open>full_alloc\<close> has no free page at all. \<open>stale_cache\<close> is a cache without a free
  page whose scavenged bitmap still has bit 5 set.
\<close>

definition full_chunk :: pallocData where
  "full_chunk = \<lparr>pallocBits = (\<lambda>w. - 1), scavenged = (\<lambda>w. 0)\<rparr>"

definition spec_chunk :: pallocData where
  "spec_chunk = \<lparr>pallocBits = (\<lambda>w. - 1)(0 := NOT 0x8000010000700227),
                 scavenged = (\<lambda>w. 0)(0 := 0x20)\<rparr>"

definition spec_alloc :: pageAlloc where
  "spec_alloc = \<lparr>summary = (\<lambda>k. pallocSum_zero)(1 := \<lparr>sum_start = 3, sum_max = 3, sum_end = 0\<rparr>),
                 chunks = (\<lambda>k. full_chunk)(1 := spec_chunk),
                 searchAddr = 0x400000, p_end = 2\<rparr>"

definition full_alloc :: pageAlloc where
  "full_alloc = \<lparr>summary = (\<lambda>k. pallocSum_zero), chunks = (\<lambda>k. full_chunk),
                 searchAddr = 0x400000, p_end = 2\<rparr>"

definition stale_cache :: pageCache where
  "stale_cache = \<lparr>base = 0x400000, cache = 0, scav = 0x20\<rparr>"

text \<open>
  \<open>drained_alloc\<close> is \<open>full_alloc\<close> with the search address on the last page of the first
  window of chunk 1, as \<open>allocToCache\<close> leaves it.
\<close>

definition drained_alloc :: pageAlloc where
  "drained_alloc = full_alloc\<lparr>searchAddr := 0x47E000\<rparr>"

text \<open>\<open>oom_alloc\<close> is \<open>full_alloc\<close> marked as out of memory.\<close>

definition oom_alloc :: pageAlloc where
  "oom_alloc = full_alloc\<lparr>searchAddr := maxSearchAddr\<rparr>"


section \<open>Bit scans and counts\<close>

lemma tz_props:
  assumes "x \<noteq> 0"
  shows "TrailingZeros64 x < 64" and "bit x (TrailingZeros64 x)" and "\<forall>j<TrailingZeros64 x. \<not> bit x j"
proof -
  let ?P = "\<lambda>i. \<not> bit x i"
  let ?m = "length (takeWhile ?P [0..<64])"
  from assms obtain k where k: "bit x k" by (auto simp: bit_eq_iff)
  then have k64: "k < 64" by (auto dest: bit_imp_le_length)
  have "?m \<noteq> 64"
  proof
    assume "?m = 64"
    then have "takeWhile ?P [0..<64] = [0..<64]"
      by (metis length_upt diff_zero takeWhile_eq_take take_all order_refl)
    then have "\<forall>i\<in>set [0..<64]. ?P i" by (metis set_takeWhileD)
    with k k64 show False by auto
  qed
  moreover have "?m \<le> 64" using length_takeWhile_le[of ?P "[0..<64]"] by simp
  ultimately have lt: "?m < 64" by simp
  then show "TrailingZeros64 x < 64" by (simp add: TrailingZeros64_def)
  from lt have "\<not> ?P ([0..<64] ! ?m)" by (intro nth_length_takeWhile) simp
  with lt show "bit x (TrailingZeros64 x)" by (simp add: TrailingZeros64_def)
  show "\<forall>j<TrailingZeros64 x. \<not> bit x j"
  proof (intro allI impI)
    fix j assume j: "j < TrailingZeros64 x"
    then have jm: "j < ?m" by (simp add: TrailingZeros64_def)
    then have "takeWhile ?P [0..<64] ! j \<in> set (takeWhile ?P [0..<64])" by (rule nth_mem)
    then have "?P (takeWhile ?P [0..<64] ! j)" by (rule set_takeWhileD[THEN conjunct2])
    moreover have "takeWhile ?P [0..<64] ! j = [0..<64] ! j" using jm by (rule takeWhile_nth)
    ultimately show "\<not> bit x j" using jm lt by simp
  qed
qed

lemma unat_of_nat64: "i < 64 \<Longrightarrow> unat (of_nat i :: 64 word) = i"
  by (simp add: unat_of_nat)

lemma bit_clear1: "bit (w AND NOT (2 ^ i) :: 64 word) k \<longleftrightarrow> bit w k \<and> k \<noteq> i"
  by (auto simp: bit_simps dest: bit_imp_le_length)

lemma shr_and_1: "drop_bit i (s :: 64 word) AND 1 = (if bit s i then 1 else 0)"
  by (simp add: and_one_eq mod_2_eq_odd bit_iff_odd_drop_bit)

lemma alloc_1_eq:
  assumes "cache c \<noteq> 0"
  shows "alloc c 1 =
    ((base c + of_nat (TrailingZeros64 (cache c)) * pageSize,
      if bit (scav c) (TrailingZeros64 (cache c)) then pageSize else 0),
     c\<lparr>cache := cache c AND NOT (2 ^ TrailingZeros64 (cache c)),
       scav := scav c AND NOT (2 ^ TrailingZeros64 (cache c))\<rparr>)"
  using assms tz_props(1)[OF assms]
  by (simp add: alloc_def Let_def unat_of_nat64 shr_and_1)

lemma filter_lowest:
  assumes "i < n" "P i" "\<forall>j<i. \<not> P j"
  shows "filter P [0..<n] = i # filter (\<lambda>k. P k \<and> k \<noteq> i) [0..<n]"
proof -
  have "[0..<n] = [0..<i] @ [i..<n]"
    using assms(1) upt_add_eq_append[of 0 i "n - i"] by simp
  then have split: "[0..<n] = [0..<i] @ i # [Suc i..<n]"
    using assms(1) by (simp add: upt_conv_Cons)
  have a: "filter P [0..<i] = []" using assms(3) by (auto simp: filter_empty_conv)
  have b: "filter (\<lambda>k. P k \<and> k \<noteq> i) [0..<i] = []" using assms(3) by (auto simp: filter_empty_conv)
  have c: "filter (\<lambda>k. P k \<and> k \<noteq> i) [Suc i..<n] = filter P [Suc i..<n]"
    by (rule filter_cong) auto
  show ?thesis
    by (subst (1 2) split) (simp add: a b c assms(2))
qed

lemma repeat_alloc1_eq:
  "k \<le> OnesCount64 (cache c) \<Longrightarrow>
   repeat_alloc1 k c = map (\<lambda>i. base c + of_nat i * pageSize) (take k (filter (bit (cache c)) [0..<64]))"
proof (induction k arbitrary: c)
  case 0
  then show ?case by simp
next
  case (Suc k)
  let ?i = "TrailingZeros64 (cache c)"
  let ?c' = "c\<lparr>cache := cache c AND NOT (2 ^ ?i), scav := scav c AND NOT (2 ^ ?i)\<rparr>"
  from Suc.prems have ne: "cache c \<noteq> 0" by (auto simp: OnesCount64_def)
  note tz = tz_props[OF ne]
  have "filter (bit (cache c)) [0..<64] = ?i # filter (\<lambda>k. bit (cache c) k \<and> k \<noteq> ?i) [0..<64]"
    using filter_lowest[of ?i 64 "bit (cache c)"] tz by simp
  also have "(\<lambda>k. bit (cache c) k \<and> k \<noteq> ?i) = bit (cache ?c')"
    by (simp add: bit_clear1 fun_eq_iff)
  finally have fl: "filter (bit (cache c)) [0..<64] = ?i # filter (bit (cache ?c')) [0..<64]" .
  then have "OnesCount64 (cache c) = Suc (OnesCount64 (cache ?c'))"
    by (simp add: OnesCount64_def)
  with Suc.prems have "k \<le> OnesCount64 (cache ?c')" by simp
  from Suc.IH[OF this] show ?case
    by (simp add: alloc_1_eq[OF ne] fl)
qed

lemma run_at_iff: "run_at c n i \<longleftrightarrow> i + n \<le> 64 \<and> (\<forall>k<n. bit c (i + k))"
  by (auto simp: run_at_def list_all_iff)

lemma findBitRange64_found:
  assumes "run_at c (unat n) i" and "\<forall>j<i. \<not> run_at c (unat n) j"
  shows "findBitRange64 c n = of_nat i \<and> i < 64"
proof -
  have i64: "i < 64"
  proof (rule ccontr)
    assume "\<not> i < 64"
    with assms(1) have "i = 64" "unat n = 0" by (auto simp: run_at_iff)
    then have "run_at c (unat n) 0" by (simp add: run_at_iff)
    with assms(2) \<open>i = 64\<close> show False by auto
  qed
  have "find (run_at c (unat n)) [0..<64] = Some i"
    unfolding find_Some_iff using assms i64 by (intro exI[of _ i]) simp
  then show ?thesis using i64 by (simp add: findBitRange64_def)
qed

lemma findBitRange64_none:
  assumes "\<forall>i. \<not> run_at c (unat n) i"
  shows "findBitRange64 c n = 64"
proof -
  have "find (run_at c (unat n)) [0..<64] = None"
    using assms by (simp add: find_None_iff)
  then show ?thesis by (simp add: findBitRange64_def)
qed

lemma findBitRange64_cases:
  "(findBitRange64 c n = 64 \<and> (\<forall>i<64. \<not> run_at c (unat n) i)) \<or>
   (\<exists>i<64. findBitRange64 c n = of_nat i \<and> run_at c (unat n) i \<and> (\<forall>j<i. \<not> run_at c (unat n) j))"
proof (cases "find (run_at c (unat n)) [0..<64]")
  case None
  then have "\<forall>i<64. \<not> run_at c (unat n) i" by (auto simp: find_None_iff)
  with None show ?thesis by (simp add: findBitRange64_def)
next
  case (Some i)
  then have "i < 64 \<and> run_at c (unat n) i \<and> (\<forall>j<i. \<not> run_at c (unat n) j)"
    by (auto simp: find_Some_iff)
  with Some show ?thesis by (auto simp: findBitRange64_def)
qed

lemma bit_run_mask:
  assumes "i + n \<le> 64"
  shows "bit (push_bit i (push_bit n (1 :: 64 word) - 1)) k \<longleftrightarrow> i \<le> k \<and> k < i + n"
proof -
  have "push_bit n (1 :: 64 word) - 1 = mask n"
    by (simp add: mask_eq_decr_exp)
  then have "bit (push_bit i (push_bit n (1 :: 64 word) - 1)) k \<longleftrightarrow> bit (push_bit i (mask n :: 64 word)) k"
    by simp
  also have "\<dots> \<longleftrightarrow> i \<le> k \<and> k < i + n"
    using assms by (auto simp: bit_simps)
  finally show ?thesis .
qed

lemma OnesCount64_card: "OnesCount64 x = card {k. bit x k}"
proof -
  have "OnesCount64 x = card {k. k < 64 \<and> bit x k}"
    by (simp add: OnesCount64_def length_filter_conv_card) (rule arg_cong[where f=card], auto)
  also have "{k. k < 64 \<and> bit x k} = {k. bit x k}"
    by (auto dest: bit_imp_le_length)
  finally show ?thesis .
qed

lemma word64_ge_64: "(64 :: 64 word) \<le> of_nat i \<longleftrightarrow> 64 \<le> i" if "i < 64"
  using that by (simp add: word_le_nat_alt unat_of_nat)

lemma allocN_found:
  assumes r: "run_at (cache c) (unat n) i" and least: "\<forall>j<i. \<not> run_at (cache c) (unat n) j"
  shows "allocN c n =
    ((base c + of_nat i * pageSize,
      of_nat (card {k. i \<le> k \<and> k < i + unat n \<and> bit (scav c) k}) * pageSize),
     c\<lparr>cache := cache c AND NOT (push_bit i (push_bit (unat n) 1 - 1)),
       scav := scav c AND NOT (push_bit i (push_bit (unat n) 1 - 1))\<rparr>)"
proof -
  from findBitRange64_found[OF r least] have f: "findBitRange64 (cache c) n = of_nat i" and i: "i < 64"
    by auto
  from r have le: "i + unat n \<le> 64" by (simp add: run_at_iff)
  have "{k. bit (scav c AND push_bit i (push_bit (unat n) 1 - 1)) k} = {k. i \<le> k \<and> k < i + unat n \<and> bit (scav c) k}"
    using bit_run_mask[OF le] by (simp only: bit_and_iff) auto
  then have cnt: "OnesCount64 (scav c AND push_bit i (push_bit (unat n) 1 - 1)) = card {k. i \<le> k \<and> k < i + unat n \<and> bit (scav c) k}"
    by (simp only: OnesCount64_card)
  show ?thesis
    unfolding allocN_def Let_def f
    using i by (simp only: word64_ge_64[OF i] unat_of_nat64[OF i] cnt) simp
qed

lemma allocN_none:
  assumes "\<forall>i. \<not> run_at (cache c) (unat n) i"
  shows "allocN c n = ((0, 0), c)"
  by (simp add: allocN_def findBitRange64_none[OF assms])

lemma allocN_base: "base (snd (allocN c n)) = base c"
  by (simp add: allocN_def Let_def)

lemma allocN_success_frame:
  assumes lt: "findBitRange64 (cache c) n < 64"
  defines "i \<equiv> unat (findBitRange64 (cache c) n)"
  shows "fst (fst (allocN c n)) = base c + of_nat i * pageSize"
    and "\<not> (i \<le> k \<and> k < i + unat n) \<Longrightarrow> bit (cache (snd (allocN c n))) k \<longleftrightarrow> bit (cache c) k"
    and "\<not> (i \<le> k \<and> k < i + unat n) \<Longrightarrow> bit (scav (snd (allocN c n))) k \<longleftrightarrow> bit (scav c) k"
proof -
  from findBitRange64_cases[of "cache c" n] lt
  obtain j where j: "j < 64" "findBitRange64 (cache c) n = of_nat j" "run_at (cache c) (unat n) j"
    "\<forall>l<j. \<not> run_at (cache c) (unat n) l"
    by auto
  then have ij: "i = j" by (simp add: i_def unat_of_nat64)
  note eq = allocN_found[OF j(3,4)]
  from j(3) have le: "j + unat n \<le> 64" by (simp add: run_at_iff)
  show "fst (fst (allocN c n)) = base c + of_nat i * pageSize" by (simp add: eq ij)
  show "bit (cache (snd (allocN c n))) k \<longleftrightarrow> bit (cache c) k" if "\<not> (i \<le> k \<and> k < i + unat n)"
    unfolding eq using bit_run_mask[OF le, of k] that
    by (simp add: bit_and_iff bit_not_iff ij) (auto dest: bit_imp_le_length)
  show "bit (scav (snd (allocN c n))) k \<longleftrightarrow> bit (scav c) k" if "\<not> (i \<le> k \<and> k < i + unat n)"
    unfolding eq using bit_run_mask[OF le, of k] that
    by (simp add: bit_and_iff bit_not_iff ij) (auto dest: bit_imp_le_length)
qed

section \<open>Properties of the page cache\<close>

text \<open>
  Claim C1. For a page cache whose free bitmap is not zero, \<open>alloc\<close> with \<open>npages = 1\<close>
  takes the lowest set bit \<open>i\<close> of the free bitmap (the trailing-zero count), returns the
  address \<open>base + i * pageSize\<close>, returns \<open>pageSize\<close> as the scavenged byte count if the
  scavenged bit \<open>i\<close> was set and 0 otherwise, and clears bit \<open>i\<close>, and only bit \<open>i\<close>, of
  both bitmaps. Consequently \<open>k\<close> repeated single-page allocations (with \<open>k\<close> at most the
  number of free pages) return the addresses of the \<open>k\<close> lowest set bits in increasing
  bit-index order.
\<close>

theorem alloc_one_page:
  assumes "cache c \<noteq> 0"
  shows "(let i = TrailingZeros64 (cache c); r = alloc c 1 in
     i < 64 \<and> bit (cache c) i \<and> (\<forall>j<i. \<not> bit (cache c) j) \<and>
     fst r = (base c + of_nat i * pageSize, if bit (scav c) i then pageSize else 0) \<and>
     base (snd r) = base c \<and>
     (\<forall>k. bit (cache (snd r)) k \<longleftrightarrow> bit (cache c) k \<and> k \<noteq> i) \<and>
     (\<forall>k. bit (scav (snd r)) k \<longleftrightarrow> bit (scav c) k \<and> k \<noteq> i)) \<and>
     (\<forall>k\<le>OnesCount64 (cache c). repeat_alloc1 k c =
         map (\<lambda>i. base c + of_nat i * pageSize) (take k (filter (bit (cache c)) [0..<64]))) \<and>
     sorted_wrt (<) (filter (bit (cache c)) [0..<64])"
  using tz_props[OF assms]
  by (simp add: Let_def alloc_1_eq[OF assms] bit_clear1 repeat_alloc1_eq sorted_wrt_filter)

theorem alloc_one_page_witness:
  "cache spec_cache \<noteq> 0 \<and> TrailingZeros64 (cache spec_cache) = 0 \<and>
   fst (alloc spec_cache 1) = (0x400000, 0) \<and>
   repeat_alloc1 5 spec_cache = [0x400000, 0x402000, 0x404000, 0x40A000, 0x412000]"
proof -
  have h: "cache spec_cache \<noteq> 0" by code_simp
  have tz: "TrailingZeros64 (cache spec_cache) = 0" by code_simp
  have sc: "\<not> bit (scav spec_cache) 0" by code_simp
  have b: "base spec_cache + of_nat 0 * pageSize = 0x400000" by code_simp
  have k: "5 \<le> OnesCount64 (cache spec_cache)" by code_simp
  have m: "map (\<lambda>i. base spec_cache + of_nat i * pageSize) (take 5 (filter (bit (cache spec_cache)) [0..<64]))
      = [0x400000, 0x402000, 0x404000, 0x40A000, 0x412000]" by code_simp
  from alloc_one_page[OF h] have
    "fst (alloc spec_cache 1) = (base spec_cache + of_nat (TrailingZeros64 (cache spec_cache)) * pageSize,
        if bit (scav spec_cache) (TrailingZeros64 (cache spec_cache)) then pageSize else 0)"
    and "\<forall>k\<le>OnesCount64 (cache spec_cache). repeat_alloc1 k spec_cache =
         map (\<lambda>i. base spec_cache + of_nat i * pageSize) (take k (filter (bit (cache spec_cache)) [0..<64]))"
    unfolding Let_def by blast+
  with h tz sc b k m show ?thesis by (simp del: of_nat_0)
qed

text \<open>
  Claim C2. For \<open>n > 1\<close>, \<open>allocN\<close> fails with the zero address, leaving the cache as it
  is, when the 64-bit free bitmap holds no run of \<open>n\<close> consecutive set bits; otherwise,
  with \<open>i\<close> the lowest index at which such a run starts, it returns
  \<open>base + i * pageSize\<close> and \<open>pageSize\<close> times the number of bits of the run that were both
  free and scavenged, and clears exactly the bits \<open>i, \<dots>, i + n - 1\<close> of both bitmaps.
  The predicate \<open>run_at c n i\<close> says that bits \<open>i, \<dots>, i + n - 1\<close> of \<open>c\<close> lie within
  the 64 bits and are all set (lemma \<open>run_at_iff\<close>).
\<close>

theorem allocN_lowest_run:
  assumes "1 < n"
  shows "((\<forall>i. \<not> run_at (cache c) (unat n) i) \<longrightarrow> allocN c n = ((0, 0), c)) \<and>
    (\<forall>i. run_at (cache c) (unat n) i \<and> (\<forall>j<i. \<not> run_at (cache c) (unat n) j) \<longrightarrow>
       fst (allocN c n) =
         (base c + of_nat i * pageSize,
          of_nat (card {k. i \<le> k \<and> k < i + unat n \<and> bit (cache c) k \<and> bit (scav c) k}) * pageSize) \<and>
       base (snd (allocN c n)) = base c \<and>
       (\<forall>k. bit (cache (snd (allocN c n))) k \<longleftrightarrow> bit (cache c) k \<and> \<not> (i \<le> k \<and> k < i + unat n)) \<and>
       (\<forall>k. bit (scav (snd (allocN c n))) k \<longleftrightarrow> bit (scav c) k \<and> \<not> (i \<le> k \<and> k < i + unat n)))"
proof (intro conjI allI impI)
  assume "\<forall>i. \<not> run_at (cache c) (unat n) i"
  then show "allocN c n = ((0, 0), c)" by (rule allocN_none)
next
  fix i
  assume a: "run_at (cache c) (unat n) i \<and> (\<forall>j<i. \<not> run_at (cache c) (unat n) j)"
  then have r: "run_at (cache c) (unat n) i" and l: "\<forall>j<i. \<not> run_at (cache c) (unat n) j"
    by auto
  note eq = allocN_found[OF r l]
  from r have le: "i + unat n \<le> 64" and free: "\<forall>k<unat n. bit (cache c) (i + k)"
    by (auto simp: run_at_iff)
  have "\<And>k. i \<le> k \<Longrightarrow> k < i + unat n \<Longrightarrow> bit (cache c) k"
  proof -
    fix k assume "i \<le> k" "k < i + unat n"
    then have "k - i < unat n" "i + (k - i) = k" by auto
    with free show "bit (cache c) k" by metis
  qed
  then have "{k. i \<le> k \<and> k < i + unat n \<and> bit (cache c) k \<and> bit (scav c) k}
      = {k. i \<le> k \<and> k < i + unat n \<and> bit (scav c) k}"
    by auto
  then show "fst (allocN c n) =
         (base c + of_nat i * pageSize,
          of_nat (card {k. i \<le> k \<and> k < i + unat n \<and> bit (cache c) k \<and> bit (scav c) k}) * pageSize)"
    by (simp add: eq)
  show "base (snd (allocN c n)) = base c" by (simp add: eq)
  show "bit (cache (snd (allocN c n))) k \<longleftrightarrow> bit (cache c) k \<and> \<not> (i \<le> k \<and> k < i + unat n)" for k
    unfolding eq using bit_run_mask[OF le, of k]
    by (simp add: bit_and_iff bit_not_iff) (auto dest: bit_imp_le_length)
  show "bit (scav (snd (allocN c n))) k \<longleftrightarrow> bit (scav c) k \<and> \<not> (i \<le> k \<and> k < i + unat n)" for k
    unfolding eq using bit_run_mask[OF le, of k]
    by (simp add: bit_and_iff bit_not_iff) (auto dest: bit_imp_le_length)
qed

theorem allocN_lowest_run_witness:
  "(1 :: uintptr) < 3 \<and> run_at (cache spec_cache) (unat (3 :: uintptr)) 0 \<and>
   fst (allocN spec_cache 3) = (0x400000, 0) \<and>
   cache (snd (allocN spec_cache 3)) = 0x8000010000700220 \<and>
   allocN spec_cache 4 = ((0, 0), spec_cache)"
proof -
  have h: "(1 :: uintptr) < 3" "(1 :: uintptr) < 4" by simp_all
  have r: "run_at (cache spec_cache) (unat (3 :: uintptr)) 0" by code_simp
  have none: "\<forall>i. \<not> run_at (cache spec_cache) (unat (4 :: uintptr)) i"
  proof
    fix i
    have "\<forall>i\<in>set [0..<64]. \<not> run_at (cache spec_cache) (unat (4 :: uintptr)) i" by code_simp
    moreover have "\<not> run_at (cache spec_cache) (unat (4 :: uintptr)) i" if "64 \<le> i"
      using that by (simp add: run_at_def)
    ultimately show "\<not> run_at (cache spec_cache) (unat (4 :: uintptr)) i"
      by (cases "i < 64") auto
  qed
  have c: "card {k. 0 \<le> k \<and> k < 0 + unat (3 :: uintptr) \<and> bit (cache spec_cache) k \<and> bit (scav spec_cache) k} = 0"
  proof -
    have "\<forall>k\<in>set [0..<3]. \<not> bit (scav spec_cache) k" by code_simp
    then have "{k. 0 \<le> k \<and> k < 0 + unat (3 :: uintptr) \<and> bit (cache spec_cache) k \<and> bit (scav spec_cache) k} = {}"
      by auto
    then show ?thesis by simp
  qed
  have b: "base spec_cache + of_nat 0 * pageSize = 0x400000" by code_simp
  from allocN_lowest_run[OF h(1), of spec_cache] r have
    f: "fst (allocN spec_cache 3) =
         (base spec_cache + of_nat 0 * pageSize,
          of_nat (card {k. 0 \<le> k \<and> k < 0 + unat (3 :: uintptr) \<and> bit (cache spec_cache) k \<and> bit (scav spec_cache) k}) * pageSize)"
    and bits: "\<forall>k. bit (cache (snd (allocN spec_cache 3))) k \<longleftrightarrow> bit (cache spec_cache) k \<and> \<not> (0 \<le> k \<and> k < 0 + unat (3 :: uintptr))"
    by blast+
  have "bit (cache (snd (allocN spec_cache 3))) k = bit (0x8000010000700220 :: uint64) k" for k
  proof (cases "k < 64")
    case True
    have "\<forall>k\<in>set [0..<64]. (bit (cache spec_cache) k \<and> \<not> (0 \<le> k \<and> k < 0 + unat (3 :: uintptr))) = bit (0x8000010000700220 :: uint64) k"
      by code_simp
    with True bits show ?thesis by simp
  next
    case False
    then show ?thesis by (auto dest: bit_imp_le_length)
  qed
  then have cc: "cache (snd (allocN spec_cache 3)) = 0x8000010000700220"
    by (rule bit_eqI)
  from allocN_lowest_run[OF h(2), of spec_cache] none have "allocN spec_cache 4 = ((0, 0), spec_cache)"
    by blast
  moreover have "fst (allocN spec_cache 3) = (0x400000, 0)"
    unfolding f c b by simp
  ultimately show ?thesis using h r cc by simp
qed

text \<open>
  Claim C7. On a page cache whose free bitmap is all zero (\<open>empty\<close> holds), \<open>alloc\<close>
  returns the zero address for every requested page count and does not modify the cache.
\<close>

theorem alloc_empty_fails:
  assumes "empty c"
  shows "alloc c npages = ((0, 0), c)"
  using assms by (simp add: alloc_def empty_def)

theorem alloc_empty_fails_witness:
  "empty \<lparr>base = 0x400000, cache = 0, scav = 0\<rparr> \<and>
   alloc \<lparr>base = 0x400000, cache = 0, scav = 0\<rparr> 1 = ((0, 0), \<lparr>base = 0x400000, cache = 0, scav = 0\<rparr>) \<and>
   alloc \<lparr>base = 0x400000, cache = 0, scav = 0\<rparr> 5 = ((0, 0), \<lparr>base = 0x400000, cache = 0, scav = 0\<rparr>)"
proof -
  have h: "empty \<lparr>base = 0x400000, cache = 0, scav = 0\<rparr>" by (simp add: empty_def)
  from h alloc_empty_fails[OF h, of 1] alloc_empty_fails[OF h, of 5] show ?thesis by simp
qed

text \<open>
  Claim C10. \<open>alloc\<close> and \<open>allocN\<close> never change the \<open>base\<close> field; a failed allocation
  leaves the cache as it is; a successful allocation of \<open>n\<close> pages at bit index \<open>i\<close>
  (the trailing-zero count for a single page, the result of \<open>findBitRange64\<close> for a run)
  returns \<open>base + i * pageSize\<close> and leaves every bit of the free bitmap and of the
  scavenged bitmap outside the index range \<open>[i, i + n)\<close> unchanged.
\<close>

theorem alloc_frame:
  "base (snd (alloc c n)) = base c \<and>
   (cache c = 0 \<longrightarrow> snd (alloc c n) = c) \<and>
   (cache c \<noteq> 0 \<and> n = 1 \<longrightarrow>
      fst (fst (alloc c n)) = base c + of_nat (TrailingZeros64 (cache c)) * pageSize \<and>
      (\<forall>k. k \<noteq> TrailingZeros64 (cache c) \<longrightarrow>
         (bit (cache (snd (alloc c n))) k \<longleftrightarrow> bit (cache c) k) \<and>
         (bit (scav (snd (alloc c n))) k \<longleftrightarrow> bit (scav c) k))) \<and>
   (cache c \<noteq> 0 \<and> n \<noteq> 1 \<longrightarrow> alloc c n = allocN c n) \<and>
   base (snd (allocN c n)) = base c \<and>
   (64 \<le> findBitRange64 (cache c) n \<longrightarrow> snd (allocN c n) = c) \<and>
   (findBitRange64 (cache c) n < 64 \<longrightarrow>
      fst (fst (allocN c n)) = base c + of_nat (unat (findBitRange64 (cache c) n)) * pageSize \<and>
      (\<forall>k. \<not> (unat (findBitRange64 (cache c) n) \<le> k \<and> k < unat (findBitRange64 (cache c) n) + unat n) \<longrightarrow>
         (bit (cache (snd (allocN c n))) k \<longleftrightarrow> bit (cache c) k) \<and>
         (bit (scav (snd (allocN c n))) k \<longleftrightarrow> bit (scav c) k)))"
proof (intro conjI impI allI)
  show "base (snd (alloc c n)) = base c"
    by (simp add: alloc_def Let_def allocN_base)
  show "snd (alloc c n) = c" if "cache c = 0"
    using that by (simp add: alloc_def)
  show "alloc c n = allocN c n" if "cache c \<noteq> 0 \<and> n \<noteq> 1"
    using that by (simp add: alloc_def)
  show "base (snd (allocN c n)) = base c" by (rule allocN_base)
  show "snd (allocN c n) = c" if "64 \<le> findBitRange64 (cache c) n"
    using that by (simp add: allocN_def)
next
  assume a: "cache c \<noteq> 0 \<and> n = 1"
  then show "fst (fst (alloc c n)) = base c + of_nat (TrailingZeros64 (cache c)) * pageSize"
    by (simp add: alloc_1_eq)
  fix k assume "k \<noteq> TrailingZeros64 (cache c)"
  with a show "bit (cache (snd (alloc c n))) k \<longleftrightarrow> bit (cache c) k"
    and "bit (scav (snd (alloc c n))) k \<longleftrightarrow> bit (scav c) k"
    by (simp_all add: alloc_1_eq bit_clear1)
next
  assume lt: "findBitRange64 (cache c) n < 64"
  show "fst (fst (allocN c n)) = base c + of_nat (unat (findBitRange64 (cache c) n)) * pageSize"
    by (rule allocN_success_frame(1)[OF lt])
  fix k
  assume "\<not> (unat (findBitRange64 (cache c) n) \<le> k \<and> k < unat (findBitRange64 (cache c) n) + unat n)"
  then show "bit (cache (snd (allocN c n))) k \<longleftrightarrow> bit (cache c) k"
    and "bit (scav (snd (allocN c n))) k \<longleftrightarrow> bit (scav c) k"
    by (rule allocN_success_frame(2)[OF lt], rule allocN_success_frame(3)[OF lt])
qed

theorem alloc_frame_witness:
  "cache spec_cache \<noteq> 0 \<and> findBitRange64 (cache spec_cache) 3 = 0 \<and>
   base (snd (alloc spec_cache 3)) = base spec_cache \<and>
   (bit (cache (snd (alloc spec_cache 3))) 5 \<longleftrightarrow> bit (cache spec_cache) 5) \<and>
   (bit (scav (snd (alloc spec_cache 3))) 5 \<longleftrightarrow> bit (scav spec_cache) 5)"
proof -
  have h: "cache spec_cache \<noteq> 0" by code_simp
  have n: "(3 :: uintptr) \<noteq> 1" by simp
  have f: "findBitRange64 (cache spec_cache) 3 = 0" by code_simp
  have out: "\<not> (unat (0 :: uint) \<le> (5 :: nat) \<and> 5 < unat (0 :: uint) + unat (3 :: uintptr))" by simp
  from alloc_frame[of spec_cache 3] h n have eq: "alloc spec_cache 3 = allocN spec_cache 3"
    and b: "base (snd (alloc spec_cache 3)) = base spec_cache"
    by blast+
  from alloc_frame[of spec_cache 3] out have
    "(bit (cache (snd (allocN spec_cache 3))) 5 \<longleftrightarrow> bit (cache spec_cache) 5) \<and>
     (bit (scav (snd (allocN spec_cache 3))) 5 \<longleftrightarrow> bit (scav spec_cache) 5)"
    unfolding f by simp
  with h f b eq show ?thesis by simp
qed

section \<open>Properties of the fixed-size allocator\<close>

lemma chain_append: "chain m h (xs @ ys) t \<longleftrightarrow> (\<exists>u. chain m h xs u \<and> chain m u ys t)"
  by (induction xs arbitrary: h) auto

lemma chain_cong: "chain m h xs t \<Longrightarrow> \<forall>y\<in>set xs. m' y = m y \<Longrightarrow> chain m' h xs t"
  by (induction xs arbitrary: h) auto

lemma fixalloc_free_ok:
  assumes "p \<noteq> 0"
  shows "fixalloc_free f w p =
    Inr (f\<lparr>inuse_f := inuse_f f - size_f f, list_f := p\<rparr>, w\<lparr>mem := (mem w)(p := list_f f)\<rparr>)"
  using assms by (simp add: fixalloc_free_def)

lemma frees_chain:
  assumes "distinct qs" and "\<forall>q\<in>set qs. q \<noteq> 0"
  shows "\<exists>f' w'. frees qs f w = Inr (f', w') \<and>
      chain (mem w') (list_f f') (rev qs) (list_f f) \<and>
      size_f f' = size_f f \<and> zero_f f' = zero_f f \<and> first_f f' = first_f f \<and>
      first_calls w' = first_calls w \<and> sys_chunks w' = sys_chunks w \<and>
      (\<forall>a. a \<notin> set qs \<longrightarrow> mem w' a = mem w a)"
  using assms
proof (induction qs arbitrary: f w)
  case Nil
  then show ?case by simp
next
  case (Cons p qs)
  let ?f1 = "f\<lparr>inuse_f := inuse_f f - size_f f, list_f := p\<rparr>"
  let ?w1 = "w\<lparr>mem := (mem w)(p := list_f f)\<rparr>"
  from Cons.prems have p: "p \<noteq> 0" "p \<notin> set qs" and d: "distinct qs" and nz: "\<forall>q\<in>set qs. q \<noteq> 0"
    by auto
  from Cons.IH[OF d nz, of ?f1 ?w1] obtain f' w' where
    r: "frees qs ?f1 ?w1 = Inr (f', w')"
    and c: "chain (mem w') (list_f f') (rev qs) (list_f ?f1)"
    and k: "size_f f' = size_f ?f1" "zero_f f' = zero_f ?f1" "first_f f' = first_f ?f1"
      "first_calls w' = first_calls ?w1" "sys_chunks w' = sys_chunks ?w1"
    and m: "\<forall>a. a \<notin> set qs \<longrightarrow> mem w' a = mem ?w1 a"
    by blast
  from m p have mp: "mem w' p = list_f f" by simp
  have "chain (mem w') (list_f f') (rev qs @ [p]) (list_f f)"
    unfolding chain_append using c p mp by (intro exI[of _ p]) simp
  moreover have "\<forall>a. a \<notin> set (p # qs) \<longrightarrow> mem w' a = mem w a"
    using m by simp
  ultimately show ?case
    using r k by (simp add: fixalloc_free_ok[OF p(1)])
qed

lemma fixalloc_alloc_pop:
  assumes "size_f f \<noteq> 0" and "list_f f \<noteq> 0"
  shows "fixalloc_alloc f w =
    Inr (list_f f, f\<lparr>list_f := mem w (list_f f), inuse_f := inuse_f f + size_f f\<rparr>,
         if zero_f f then w\<lparr>mem := memclrNoHeapPointers (list_f f) (size_f f) (mem w)\<rparr> else w)"
  using assms by (simp add: fixalloc_alloc_def Let_def)

lemma separate_Cons:
  "separate s (x # xs) \<Longrightarrow> separate s xs \<and> x \<noteq> 0 \<and> x \<notin> set xs \<and> (\<forall>y\<in>set xs. \<not> y - x < s)"
  by (auto simp: separate_def list_all_iff)

lemma allocs_pop:
  assumes "size_f f \<noteq> 0" and "chain (mem w) (list_f f) xs t" and "separate (size_f f) xs"
  shows "\<exists>f' w'. allocs (length xs) f w = Inr (xs, f', w') \<and> list_f f' = t \<and>
      size_f f' = size_f f \<and> first_calls w' = first_calls w \<and> sys_chunks w' = sys_chunks w"
  using assms
proof (induction xs arbitrary: f w)
  case Nil
  then show ?case by simp
next
  case (Cons x xs)
  let ?f1 = "f\<lparr>list_f := mem w (list_f f), inuse_f := inuse_f f + size_f f\<rparr>"
  let ?w1 = "if zero_f f then w\<lparr>mem := memclrNoHeapPointers (list_f f) (size_f f) (mem w)\<rparr> else w"
  from Cons.prems(2) have hd: "list_f f = x" "x \<noteq> 0" and tl: "chain (mem w) (mem w x) xs t"
    by auto
  from separate_Cons[OF Cons.prems(3)] have sep: "separate (size_f f) xs"
    and far: "\<forall>y\<in>set xs. \<not> y - x < size_f f" by auto
  have same: "\<forall>y\<in>set xs. mem ?w1 y = mem w y"
    using far hd by (auto simp: memclrNoHeapPointers_def)
  have c1: "chain (mem ?w1) (list_f ?f1) xs t"
    using chain_cong[OF tl same] hd by simp
  have s1: "size_f ?f1 \<noteq> 0" "separate (size_f ?f1) xs" using Cons.prems(1) sep by simp_all
  from Cons.IH[OF s1(1) c1 s1(2)] obtain f' w' where
    r: "allocs (length xs) ?f1 ?w1 = Inr (xs, f', w')" and
    k: "list_f f' = t" "size_f f' = size_f ?f1" "first_calls w' = first_calls ?w1" "sys_chunks w' = sys_chunks ?w1"
    by blast
  have a: "fixalloc_alloc f w = Inr (x, ?f1, ?w1)"
    using fixalloc_alloc_pop[of f w] Cons.prems(1) hd by simp
  show ?case
    using r k by (simp add: a)
qed

lemma fixalloc_alloc_size:
  "fixalloc_alloc f w = Inr (v, f', w') \<Longrightarrow> size_f f' = size_f f \<and> size_f f \<noteq> 0"
  by (auto simp: fixalloc_alloc_def Let_def persistentalloc_def split: if_splits sum.splits list.splits)

lemma allocs_size:
  "allocs k f w = Inr (ps, f', w') \<Longrightarrow> size_f f' = size_f f \<and> length ps = k"
proof (induction k arbitrary: f w ps)
  case 0
  then show ?case by simp
next
  case (Suc k)
  then show ?case
    by (auto split: sum.splits dest!: fixalloc_alloc_size) 
qed

lemma fixalloc_alloc_first:
  "fixalloc_alloc f w = Inr (v, f', w') \<Longrightarrow>
   first_calls w' = (if list_f f = 0 \<and> first_f f then first_calls w @ [(arg_f f, v)] else first_calls w)"
  by (auto simp: fixalloc_alloc_def Let_def persistentalloc_def split: if_splits sum.splits list.splits)

lemma separate_perm:
  assumes "separate s ps" and "distinct qs" and "set qs = set ps"
  shows "separate s (rev qs)"
  using assms by (auto simp: separate_def list_all_iff)

lemma fixalloc_free_size:
  "fixalloc_free f w p = Inr (f', w') \<Longrightarrow> size_f f' = size_f f"
  by (auto simp: fixalloc_free_def Let_def split: if_splits)

lemma fixalloc_alloc_error:
  "fixalloc_alloc f w = Inl e \<Longrightarrow>
     (e = Throw ''runtime: internal error'' \<and> size_f f = 0) \<or>
     (e = Throw ''runtime: cannot allocate memory'' \<and> size_f f \<noteq> 0)"
  by (auto simp: fixalloc_alloc_def Let_def persistentalloc_def split: if_splits sum.splits list.splits)

lemma fixalloc_free_error: "fixalloc_free f w p = Inl e \<Longrightarrow> e = NilDeref"
  by (auto simp: fixalloc_free_def Let_def split: if_splits)

lemma run_ops_no_internal_error:
  "size_f f \<noteq> 0 \<Longrightarrow> run_ops ops f w \<noteq> Inl (Throw ''runtime: internal error'')"
proof (induction ops f w rule: run_ops.induct)
  case (1 f w)
  then show ?case by simp
next
  case (2 ops f w)
  show ?case
  proof (cases "fixalloc_alloc f w")
    case (Inl e)
    with fixalloc_alloc_error[OF Inl] "2.prems" show ?thesis by auto
  next
    case (Inr r)
    obtain v f1 w1 where r: "r = (v, f1, w1)" by (cases r) auto
    from fixalloc_alloc_size[of f w v f1 w1] Inr r "2.prems" have "size_f f1 \<noteq> 0" by simp
    from "2.IH"[OF Inr r[symmetric] refl this] show ?thesis using Inr r by simp
  qed
next
  case (3 p ops f w)
  show ?case
  proof (cases "fixalloc_free f w p")
    case (Inl e)
    with fixalloc_free_error[OF Inl] show ?thesis by auto
  next
    case (Inr r)
    obtain f1 w1 where r: "r = (f1, w1)" by (cases r) auto
    from fixalloc_free_size[of f w p f1 w1] Inr r "3.prems" have "size_f f1 \<noteq> 0" by simp
    from "3.IH"[OF Inr r[symmetric] this] show ?thesis using Inr r by simp
  qed
qed

lemma fixalloc_init_ok:
  assumes "size0 \<le> FixAllocChunk"
  shows "\<exists>f'. fixalloc_init f size0 first arg stat = Inr f' \<and> size_f f' \<noteq> 0 \<and>
     size_f f' = (if size0 < sizeof_mlink then sizeof_mlink else size0) \<and> size_f f' \<le> FixAllocChunk"
proof -
  have "\<not> FixAllocChunk < size0" using assms by simp
  moreover have "sizeof_mlink \<noteq> 0" "sizeof_mlink \<le> FixAllocChunk" by (simp_all add: sizeof_mlink_def FixAllocChunk_def)
  moreover have "size0 \<noteq> 0" if "\<not> size0 < sizeof_mlink"
    using that by (auto simp: sizeof_mlink_def)
  ultimately show ?thesis
    using assms by (auto simp: fixalloc_init_def Let_def)
qed

lemma allocs_5_run: "allocs 5 fixalloc_4k sysmem0 = Inr (reuse_ps, fixalloc_5, sysmem_5)"
proof -
  have n5: "(5::nat) = Suc (Suc (Suc (Suc (Suc 0))))" by simp
  show ?thesis
    unfolding n5
    by (simp add: fixalloc_alloc_def persistentalloc_def Let_def fixalloc_4k_def sysmem0_def
        reuse_ps_def fixalloc_5_def sysmem_5_def)
qed

lemma carve_Cons: "carve s per (a # cs) = map (\<lambda>t. a + of_nat t * s) [0..<per] @ carve s per cs"
  by (simp add: carve_def)

lemma carve_Nil: "carve s per [] = []"
  by (simp add: carve_def)

lemma map_objects_Suc:
  "map (\<lambda>t. c + of_nat t * s) [0..<Suc r] = c # map (\<lambda>t. (c + s) + of_nat t * (s :: uintptr)) [0..<r]"
proof -
  have "[0..<Suc r] = 0 # map Suc [0..<r]"
    by (simp add: upt_conv_Cons map_Suc_upt del: upt_Suc)
  then show ?thesis
    by (simp add: comp_def algebra_simps del: upt_Suc)
qed

lemma fixalloc_alloc_carve:
  assumes "list_f f = 0" and "size_f f \<noteq> 0"
    and n: "unat (nchunk_f f) = Suc r * unat (size_f f)" and le: "Suc r * unat (size_f f) \<le> 16384"
  shows "\<exists>f'. fixalloc_alloc f w =
      Inr (chunk_f f, f',
           if first_f f then w\<lparr>first_calls := first_calls w @ [(arg_f f, chunk_f f)]\<rparr> else w) \<and>
      list_f f' = 0 \<and> size_f f' = size_f f \<and> nalloc_f f' = nalloc_f f \<and>
      first_f f' = first_f f \<and> arg_f f' = arg_f f \<and>
      chunk_f f' = chunk_f f + size_f f \<and> unat (nchunk_f f') = r * unat (size_f f)"
proof -
  let ?s = "unat (size_f f)"
  have s: "?s \<le> 16384" using le by simp
  have "unat (nchunk_f f) < 2 ^ 64" using n le by simp
  then have "unat (ucast (nchunk_f f) :: uintptr) = unat (nchunk_f f)"
    by (simp add: unsigned_ucast_eq take_bit_nat_eq_self)
  then have ge: "\<not> (ucast (nchunk_f f) :: uintptr) < size_f f"
    using n by (simp add: word_less_nat_alt)
  have us: "unat (ucast (size_f f) :: uint32) = ?s"
    using s by (simp add: unsigned_ucast_eq take_bit_nat_eq_self)
  then have "ucast (size_f f) \<le> nchunk_f f"
    using n by (simp add: word_le_nat_alt)
  then have "unat (nchunk_f f - ucast (size_f f)) = unat (nchunk_f f) - unat (ucast (size_f f) :: uint32)"
    by (rule unat_sub)
  then have sub: "unat (nchunk_f f - ucast (size_f f)) = r * ?s"
    unfolding us n by simp
  show ?thesis
    using assms(1,2) ge sub by (simp add: fixalloc_alloc_def Let_def)
qed

lemma fixalloc_alloc_refill:
  assumes c: "carving f per 0"
  shows "(sys_chunks w = [] \<longrightarrow> fixalloc_alloc f w = Inl (Throw ''runtime: cannot allocate memory'')) \<and>
    (\<forall>a cs. sys_chunks w = a # cs \<longrightarrow>
       fixalloc_alloc f w = fixalloc_alloc (f\<lparr>chunk_f := a, nchunk_f := nalloc_f f\<rparr>) (w\<lparr>sys_chunks := cs\<rparr>))"
proof -
  from c have l: "list_f f = 0" and s: "size_f f \<noteq> 0" and n: "unat (nchunk_f f) = 0"
    and full: "unat (nalloc_f f) = per * unat (size_f f)" "0 < per" "per * unat (size_f f) \<le> 16384"
    by (simp_all add: carving_def)
  from n have "nchunk_f f = 0" by (simp add: unat_eq_0)
  then have lt: "(ucast (nchunk_f f) :: uintptr) < size_f f"
    using s by (simp add: word_neq_0_conv)
  have "unat (size_f f) \<le> unat (nalloc_f f)" using full by simp
  moreover have "unat (nalloc_f f) < 2 ^ 64" using full by simp
  then have "unat (ucast (nalloc_f f) :: uintptr) = unat (nalloc_f f)"
    by (simp add: unsigned_ucast_eq take_bit_nat_eq_self)
  ultimately have ge: "\<not> (ucast (nalloc_f f) :: uintptr) < size_f f"
    by (simp add: word_less_nat_alt)
  show ?thesis
    using l s lt ge
    by (auto simp: fixalloc_alloc_def Let_def persistentalloc_def split: list.splits)
qed

lemma carving_step:
  assumes c: "carving f per r" and a: "fixalloc_alloc f w = Inr (v, f', w')"
  shows "\<exists>r'. carving f' per r' \<and>
     v # (map (\<lambda>t. chunk_f f' + of_nat t * size_f f') [0..<r'] @ carve (size_f f') per (sys_chunks w')) =
       map (\<lambda>t. chunk_f f + of_nat t * size_f f) [0..<r] @ carve (size_f f) per (sys_chunks w) \<and>
     size_f f' = size_f f \<and> first_f f' = first_f f \<and> arg_f f' = arg_f f \<and>
     first_calls w' = first_calls w @ (if first_f f then [(arg_f f, v)] else [])"
proof (cases r)
  case (Suc r')
  from c Suc have l: "list_f f = 0" and s: "size_f f \<noteq> 0"
    and n: "unat (nchunk_f f) = Suc r' * unat (size_f f)"
    and le: "per * unat (size_f f) \<le> 16384"
    and rest: "0 < per" "unat (nalloc_f f) = per * unat (size_f f)" "Suc r' \<le> per"
    by (simp_all add: carving_def)
  from rest(3) have "Suc r' * unat (size_f f) \<le> per * unat (size_f f)" by (rule mult_le_mono1)
  with le have le': "Suc r' * unat (size_f f) \<le> 16384" by linarith
  from fixalloc_alloc_carve[OF l s n le', of w] a obtain g where
    g: "v = chunk_f f" "f' = g"
      "w' = (if first_f f then w\<lparr>first_calls := first_calls w @ [(arg_f f, chunk_f f)]\<rparr> else w)"
    and k: "list_f g = 0" "size_f g = size_f f" "nalloc_f g = nalloc_f f" "first_f g = first_f f"
      "arg_f g = arg_f f" "chunk_f g = chunk_f f + size_f f" "unat (nchunk_f g) = r' * unat (size_f f)"
    by auto
  have c': "carving f' per r'"
    using k g(2) s le rest by (simp add: carving_def)
  have w: "sys_chunks w' = sys_chunks w" using g(3) by simp
  show ?thesis
    using c' k g w by (intro exI[of _ r']) (simp add: Suc map_objects_Suc del: upt_Suc)
next
  case 0
  from c 0 have l: "list_f f = 0" and s: "size_f f \<noteq> 0"
    and rest: "0 < per" "unat (nalloc_f f) = per * unat (size_f f)" "per * unat (size_f f) \<le> 16384"
    by (simp_all add: carving_def)
  from rest(1) obtain per' where per: "per = Suc per'" by (cases per) auto
  from fixalloc_alloc_refill[of f per w] c 0 a obtain b cs where
    sc: "sys_chunks w = b # cs"
    and a2: "fixalloc_alloc (f\<lparr>chunk_f := b, nchunk_f := nalloc_f f\<rparr>) (w\<lparr>sys_chunks := cs\<rparr>) = Inr (v, f', w')"
    by (cases "sys_chunks w") auto
  let ?f2 = "f\<lparr>chunk_f := b, nchunk_f := nalloc_f f\<rparr>" and ?w2 = "w\<lparr>sys_chunks := cs\<rparr>"
  have n2: "unat (nchunk_f ?f2) = Suc per' * unat (size_f ?f2)" using rest(2) per by simp
  have le2: "Suc per' * unat (size_f ?f2) \<le> 16384" using rest(3) per by simp
  from fixalloc_alloc_carve[of ?f2 per' ?w2, OF _ _ n2 le2] l s a2 obtain g where
    g: "v = b" "f' = g"
      "w' = (if first_f f then ?w2\<lparr>first_calls := first_calls w @ [(arg_f f, b)]\<rparr> else ?w2)"
    and k: "list_f g = 0" "size_f g = size_f f" "nalloc_f g = nalloc_f f" "first_f g = first_f f"
      "arg_f g = arg_f f" "chunk_f g = b + size_f f" "unat (nchunk_f g) = per' * unat (size_f f)"
    by auto
  have c': "carving f' per per'"
    using k g(2) s rest per by (simp add: carving_def)
  have w: "sys_chunks w' = cs" using g(3) by simp
  show ?thesis
    using c' k g w sc
    by (intro exI[of _ per']) (simp add: 0 per carve_Cons map_objects_Suc del: upt_Suc)
qed

lemma allocs_carve:
  assumes "carving f per r" and "allocs k f w = Inr (ps, f1, w1)"
  shows "ps = take k (map (\<lambda>t. chunk_f f + of_nat t * size_f f) [0..<r] @
                     carve (size_f f) per (sys_chunks w)) \<and>
         first_calls w1 = first_calls w @ (if first_f f then map (Pair (arg_f f)) ps else [])"
  using assms
proof (induction k arbitrary: f w r ps)
  case 0
  then show ?case by simp
next
  case (Suc k)
  from Suc.prems(2) obtain v f' w' ps' where
    a: "fixalloc_alloc f w = Inr (v, f', w')" and r: "allocs k f' w' = Inr (ps', f1, w1)"
    and ps: "ps = v # ps'"
    by (auto split: sum.splits)
  from carving_step[OF Suc.prems(1) a] obtain r' where
    c': "carving f' per r'"
    and l: "v # (map (\<lambda>t. chunk_f f' + of_nat t * size_f f') [0..<r'] @ carve (size_f f') per (sys_chunks w')) =
       map (\<lambda>t. chunk_f f + of_nat t * size_f f) [0..<r] @ carve (size_f f) per (sys_chunks w)"
    and k: "size_f f' = size_f f" "first_f f' = first_f f" "arg_f f' = arg_f f"
      "first_calls w' = first_calls w @ (if first_f f then [(arg_f f, v)] else [])"
    by blast
  from Suc.IH[OF c' r] have
    ih: "ps' = take k (map (\<lambda>t. chunk_f f' + of_nat t * size_f f') [0..<r'] @
                     carve (size_f f') per (sys_chunks w'))"
    and fc: "first_calls w1 = first_calls w' @ (if first_f f' then map (Pair (arg_f f')) ps' else [])"
    by auto
  have "ps = take (Suc k) (map (\<lambda>t. chunk_f f + of_nat t * size_f f) [0..<r] @
                     carve (size_f f) per (sys_chunks w))"
    unfolding l[symmetric] ps ih by simp
  moreover have "first_calls w1 = first_calls w @ (if first_f f then map (Pair (arg_f f)) ps else [])"
    using fc k ps by simp
  ultimately show ?case by simp
qed

lemma init_carving:
  assumes "fixalloc_init f0 size0 first arg stat = Inr f"
  shows "carving f (16384 div unat (size_f f)) 0"
proof -
  from assms have le: "size0 \<le> FixAllocChunk"
    and f: "f = f0\<lparr>size_f := (if size0 < sizeof_mlink then sizeof_mlink else size0), first_f := first,
               arg_f := arg, list_f := 0, chunk_f := 0, nchunk_f := 0,
               nalloc_f := ucast (FixAllocChunk div (if size0 < sizeof_mlink then sizeof_mlink else size0) *
                                  (if size0 < sizeof_mlink then sizeof_mlink else size0)),
               inuse_f := 0, stat_f := stat, zero_f := True\<rparr>"
    by (auto simp: fixalloc_init_def Let_def split: if_splits)
  let ?s = "size_f f"
  have s8: "8 \<le> unat ?s" and s16: "unat ?s \<le> 16384"
    using le by (auto simp: f sizeof_mlink_def FixAllocChunk_def word_le_nat_alt word_less_nat_alt)
  then have s0: "?s \<noteq> 0" by auto
  have per: "0 < 16384 div unat ?s" using s8 s16 by (simp add: div_greater_zero_iff)
  have m: "16384 div unat ?s * unat ?s \<le> 16384" by simp
  have d: "unat (FixAllocChunk div ?s) = 16384 div unat ?s"
    by (simp add: unat_div FixAllocChunk_def)
  have "(16384 :: nat) < 2 ^ 64" by simp
  with m have "16384 div unat ?s * unat ?s < 2 ^ 64" by (rule le_less_trans)
  then have "unat (FixAllocChunk div ?s) * unat ?s < 2 ^ 64" unfolding d .
  then have "unat (FixAllocChunk div ?s * ?s) = unat (FixAllocChunk div ?s) * unat ?s"
    using unat_mult_lem[of "FixAllocChunk div ?s" ?s] by simp
  then have "unat (FixAllocChunk div ?s * ?s) = 16384 div unat ?s * unat ?s"
    unfolding d .
  moreover have "nalloc_f f = ucast (FixAllocChunk div ?s * ?s)" by (simp add: f)
  moreover have "16384 div unat ?s * unat ?s < 2 ^ 32"
    using m by (rule le_less_trans) simp
  ultimately have "unat (nalloc_f f) = 16384 div unat ?s * unat ?s"
    by (simp add: unsigned_ucast_eq take_bit_nat_eq_self)
  moreover have "list_f f = 0" "unat (nchunk_f f) = 0" by (simp_all add: f)
  ultimately show ?thesis
    using s0 per m by (simp add: carving_def)
qed

lemma separate_iff:
  "separate s xs \<longleftrightarrow>
     distinct xs \<and> (\<forall>x\<in>set xs. x \<noteq> 0) \<and> (\<forall>x\<in>set xs. \<forall>y\<in>set xs. x = y \<or> \<not> y - x < s)"
  by (auto simp: separate_def list_all_iff)

lemma no_overlap_nat:
  assumes "unat x + unat s \<le> unat y" and "unat y + unat s \<le> 2 ^ 64" and "0 < unat (s :: uintptr)"
  shows "x \<noteq> y \<and> \<not> y - x < s \<and> \<not> x - y < s"
proof -
  from assms(1,3) have lt: "unat x < unat y" by simp
  then have ne: "x \<noteq> y" by auto
  from lt have "x \<le> y" by (simp add: word_le_nat_alt)
  then have "unat (y - x) = unat y - unat x" by (rule unat_sub)
  with assms(1) have a: "\<not> y - x < s" by (simp add: word_less_nat_alt)
  from lt have "unat (x - y) = unat x + 2 ^ 64 - unat y"
    by (simp add: unat_sub_if')
  with assms(2) have b: "\<not> x - y < s" by (simp add: word_less_nat_alt)
  from ne a b show ?thesis by simp
qed

lemma obj_unat:
  assumes "unat a + 16384 \<le> 2 ^ 64" and "t < per" and "per * unat s \<le> 16384" and "0 < unat (s :: uintptr)"
  shows "unat (a + of_nat t * s) = unat a + t * unat s"
proof -
  from assms(2) have "Suc t * unat s \<le> per * unat s" by (intro mult_le_mono1) simp
  with assms(3) have ts: "t * unat s + unat s \<le> 16384" by simp
  have "t * 1 \<le> t * unat s" using assms(4) by (intro mult_le_mono2) simp
  then have "t \<le> t * unat s" by (simp only: mult_1_right)
  with ts assms(4) have "t < 16384" by linarith
  then have t: "unat (of_nat t :: uintptr) = t" by (simp add: unat_of_nat)
  have "unat (of_nat t :: uintptr) * unat s < 2 ^ 64" unfolding t using ts by simp
  then have m: "unat (of_nat t * s) = t * unat s"
    using unat_mult_lem[of "of_nat t :: uintptr" s] t by simp
  have "unat a + unat (of_nat t * s) < 2 ^ 64" unfolding m using ts assms(1,4) by linarith
  then show ?thesis
    using unat_add_lem[of a "of_nat t * s"] m by simp
qed

lemma chunk_objects_separate:
  assumes a0: "a \<noteq> 0" and fit: "unat a + 16384 \<le> 2 ^ 64"
    and per: "per * unat s \<le> 16384" and s: "0 < unat (s :: uintptr)"
  shows "separate s (map (\<lambda>t. a + of_nat t * s) [0..<per])"
proof -
  let ?f = "\<lambda>t. a + of_nat t * s"
  have u: "unat (?f t) = unat a + t * unat s" if "t < per" for t
    using obj_unat[OF fit that per s] .
  have top: "unat (?f t) + unat s \<le> 2 ^ 64" if "t < per" for t
  proof -
    from that have "Suc t * unat s \<le> per * unat s" by (intro mult_le_mono1) simp
    with per fit show ?thesis unfolding u[OF that] by simp
  qed
  have step: "unat (?f t) + unat s \<le> unat (?f v)" if "t < v" "v < per" for t v
  proof -
    from that have "Suc t * unat s \<le> v * unat s" by (intro mult_le_mono1) simp
    with that show ?thesis by (simp add: u)
  qed
  have far: "?f t \<noteq> ?f v \<and> \<not> ?f v - ?f t < s \<and> \<not> ?f t - ?f v < s" if "t < v" "v < per" for t v
    using no_overlap_nat[OF step[OF that] top[OF that(2)] s] .
  have inj: "inj_on ?f (set [0..<per])"
  proof (rule inj_onI)
    fix t v assume tv: "t \<in> set [0..<per]" "v \<in> set [0..<per]" "?f t = ?f v"
    show "t = v"
    proof (rule ccontr)
      assume "t \<noteq> v"
      then consider "t < v" | "v < t" by linarith
      then show False using far[of t v] far[of v t] tv by cases auto
    qed
  qed
  have d: "distinct (map ?f [0..<per])"
    unfolding distinct_map using inj by simp
  have nz: "?f t \<noteq> 0" if "t < per" for t
  proof -
    from a0 have "0 < unat a" by (simp add: unat_gt_0)
    with u[OF that] have "0 < unat (?f t)" by simp
    then show ?thesis by (simp add: unat_gt_0)
  qed
  have pw: "?f t = ?f v \<or> \<not> ?f v - ?f t < s" if "t < per" "v < per" for t v
  proof -
    consider "t = v" | "t < v" | "v < t" by linarith
    then show ?thesis using far[of t v] far[of v t] that by cases auto
  qed
  show ?thesis
    unfolding separate_iff using d nz pw by auto
qed

lemma separate_append:
  assumes "separate s xs" and "separate s ys"
    and "\<forall>x\<in>set xs. \<forall>y\<in>set ys. x \<noteq> y \<and> \<not> y - x < s \<and> \<not> x - y < s"
  shows "separate s (xs @ ys)"
  using assms unfolding separate_iff by auto

lemma in_carve:
  "y \<in> set (carve s per cs) \<longleftrightarrow> (\<exists>b\<in>set cs. \<exists>u<per. y = b + of_nat u * s)"
proof
  assume "y \<in> set (carve s per cs)"
  then obtain b where "b \<in> set cs" "y \<in> set (map (\<lambda>t. b + of_nat t * s) [0..<per])"
    by (auto simp: carve_def)
  then obtain t where "b \<in> set cs" "t < per" "y = b + of_nat t * s" by auto
  then show "\<exists>b\<in>set cs. \<exists>u<per. y = b + of_nat u * s" by blast
next
  assume "\<exists>b\<in>set cs. \<exists>u<per. y = b + of_nat u * s"
  then obtain b u where "b \<in> set cs" "u < per" "y = b + of_nat u * s" by blast
  note bu = this
  have "u \<in> set [0..<per]" using bu(2) by simp
  then have "y \<in> (\<lambda>t. b + of_nat t * s) ` set [0..<per]"
    unfolding bu(3) by (rule imageI)
  then have "y \<in> set (map (\<lambda>t. b + of_nat t * s) [0..<per])"
    by (simp only: set_map)
  moreover have "map (\<lambda>t. b + of_nat t * s) [0..<per] \<in> set (map (\<lambda>a. map (\<lambda>t. a + of_nat t * s) [0..<per]) cs)"
    using bu(1) by (simp only: set_map) (rule imageI)
  ultimately show "y \<in> set (carve s per cs)"
    unfolding carve_def set_concat by (rule UN_I[rotated])
qed

lemma chunks_sane_Cons:
  assumes "chunks_sane (a # cs)"
  shows "chunks_sane cs" and "a \<noteq> 0" and "unat a + 16384 \<le> 2 ^ 64"
    and "\<forall>b\<in>set cs. b \<noteq> 0 \<and> unat b + 16384 \<le> 2 ^ 64 \<and>
           (unat a + 16384 \<le> unat b \<or> unat b + 16384 \<le> unat a)"
  using assms by (auto simp: chunks_sane_def list_all_iff FixAllocChunk_def)

lemma carve_separate:
  assumes "chunks_sane cs" and per: "per * unat s \<le> 16384" and s: "0 < unat (s :: uintptr)"
  shows "separate s (carve s per cs)"
  using assms(1)
proof (induction cs)
  case Nil
  show ?case by (simp add: carve_Nil separate_def)
next
  case (Cons a cs)
  note sane = chunks_sane_Cons[OF Cons.prems]
  have here: "separate s (map (\<lambda>t. a + of_nat t * s) [0..<per])"
    by (rule chunk_objects_separate[OF sane(2,3) per s])
  have rest: "separate s (carve s per cs)" by (rule Cons.IH[OF sane(1)])
  have cross: "x \<noteq> y \<and> \<not> y - x < s \<and> \<not> x - y < s"
    if x: "x \<in> set (map (\<lambda>t. a + of_nat t * s) [0..<per])" and y: "y \<in> set (carve s per cs)" for x y
  proof -
    from x obtain t where t: "t < per" "x = a + of_nat t * s" by auto
    from y obtain b u where b: "b \<in> set cs" "u < per" "y = b + of_nat u * s"
      unfolding in_carve by blast
    from sane(4) b(1) have fb: "unat b + 16384 \<le> 2 ^ 64"
      and sp: "unat a + 16384 \<le> unat b \<or> unat b + 16384 \<le> unat a" by auto
    have ux: "unat x = unat a + t * unat s" unfolding t(2) by (rule obj_unat[OF sane(3) t(1) per s])
    have uy: "unat y = unat b + u * unat s" unfolding b(3) by (rule obj_unat[OF fb b(2) per s])
    from t(1) have "Suc t * unat s \<le> per * unat s" by (intro mult_le_mono1) simp
    with per have tx: "t * unat s + unat s \<le> 16384" by simp
    from b(2) have "Suc u * unat s \<le> per * unat s" by (intro mult_le_mono1) simp
    with per have ty: "u * unat s + unat s \<le> 16384" by simp
    from sp show ?thesis
    proof
      assume "unat a + 16384 \<le> unat b"
      with ux uy tx ty fb have "unat x + unat s \<le> unat y" "unat y + unat s \<le> 2 ^ 64" by linarith+
      from no_overlap_nat[OF this s] show ?thesis .
    next
      assume "unat b + 16384 \<le> unat a"
      with ux uy tx ty sane(3) have "unat y + unat s \<le> unat x" "unat x + unat s \<le> 2 ^ 64" by linarith+
      from no_overlap_nat[OF this s] show ?thesis by auto
    qed
  qed
  show ?case
    unfolding carve_Cons using here rest cross by (intro separate_append) blast+
qed

lemma separate_take: "separate s xs \<Longrightarrow> separate s (take k xs)"
  unfolding separate_iff by (auto dest: in_set_takeD)

lemma fresh_allocs_separate:
  assumes init: "fixalloc_init f0 size0 first arg stat = Inr f"
    and sane: "chunks_sane (sys_chunks w)"
    and run: "allocs k f w = Inr (ps, f1, w1)"
  shows "separate (size_f f) ps \<and>
         first_calls w1 = first_calls w @ (if first_f f then map (Pair (arg_f f)) ps else [])"
proof -
  let ?per = "16384 div unat (size_f f)"
  note c = init_carving[OF init]
  then have s: "0 < unat (size_f f)" and per: "?per * unat (size_f f) \<le> 16384"
    by (simp_all add: carving_def unat_gt_0)
  from allocs_carve[OF c run] have
    ps: "ps = take k (carve (size_f f) ?per (sys_chunks w))"
    and fc: "first_calls w1 = first_calls w @ (if first_f f then map (Pair (arg_f f)) ps else [])"
    by simp_all
  from carve_separate[OF sane per s] have "separate (size_f f) ps"
    unfolding ps by (rule separate_take)
  with fc show ?thesis by simp
qed

lemma reuse_lifo:
  assumes "size_f f \<noteq> 0"
    and "allocs k f w = Inr (ps, f1, w1)"
    and "separate (size_f f) ps"
    and "distinct qs" and "set qs = set ps"
  shows "\<exists>f2 w2 f3 w3. frees qs f1 w1 = Inr (f2, w2) \<and>
            allocs k f2 w2 = Inr (rev qs, f3, w3) \<and>
            first_calls w3 = first_calls w1 \<and> sys_chunks w3 = sys_chunks w1"
proof -
  from allocs_size[OF assms(2)] have sz: "size_f f1 = size_f f" and len: "length ps = k" by auto
  from assms(3) have dps: "distinct ps" and nz: "\<forall>p\<in>set ps. p \<noteq> 0"
    by (auto simp: separate_def list_all_iff)
  from assms(4,5) dps have lq: "length qs = k"
    using len by (metis distinct_card)
  from nz assms(5) have nzq: "\<forall>q\<in>set qs. q \<noteq> 0" by simp
  from frees_chain[OF assms(4) nzq, of f1 w1] obtain f2 w2 where
    fr: "frees qs f1 w1 = Inr (f2, w2)"
    and ch: "chain (mem w2) (list_f f2) (rev qs) (list_f f1)"
    and k2: "size_f f2 = size_f f1" "first_calls w2 = first_calls w1" "sys_chunks w2 = sys_chunks w1"
    by blast
  have s2: "size_f f2 \<noteq> 0" using k2 sz assms(1) by simp
  have sep: "separate (size_f f2) (rev qs)"
    using separate_perm[OF assms(3,4,5)] k2 sz by simp
  from allocs_pop[OF s2 ch sep] obtain f3 w3 where
    "allocs (length (rev qs)) f2 w2 = Inr (rev qs, f3, w3)"
    "first_calls w3 = first_calls w2" "sys_chunks w3 = sys_chunks w2"
    by blast
  with fr k2 lq show ?thesis by auto
qed

lemma fixalloc_init_fields:
  assumes "fixalloc_init f0 size0 first arg stat = Inr f"
  shows "size_f f \<noteq> 0" and "first_f f = first" and "arg_f f = arg"
proof -
  from assms have "size0 \<le> FixAllocChunk" by (auto simp: fixalloc_init_def split: if_splits)
  from fixalloc_init_ok[OF this, of f0 first arg stat] assms show "size_f f \<noteq> 0" by auto
  from assms show "first_f f = first" "arg_f f = arg"
    by (auto simp: fixalloc_init_def Let_def split: if_splits)
qed

lemma init_4k_run: "fixalloc_init fixalloc_zero 4096 True 7 0 = Inr fixalloc_4k"
  by (simp add: fixalloc_init_def fixalloc_zero_def fixalloc_4k_def FixAllocChunk_def sizeof_mlink_def)

text \<open>
  Claim C8. Take an allocator as \<open>init\<close> leaves it, a system allocator whose chunks are
  sane (non-nil, not wrapping, apart from each other), and \<open>k \<ge> 1\<close>. Let \<open>k\<close> calls of
  \<open>alloc\<close> return the pointers \<open>ps\<close>; the first-touch callback, if set, is called once for
  each of them, in this order. Free all of them, in any order \<open>qs\<close>. Then \<open>k\<close> further calls
  of \<open>alloc\<close> succeed and return the same addresses in LIFO order, \<open>rev qs\<close>, without any
  call of the callback and without asking the system allocator for memory. The same holds
  from any state of an initialised allocator (\<open>size \<noteq> 0\<close>) whenever the \<open>k\<close> pointers
  returned are separate objects: non-nil and pairwise non-overlapping blocks of \<open>size\<close>
  bytes. Moreover any single \<open>alloc\<close> calls the callback exactly when the free list is empty
  (the object is carved from a chunk) and a callback is set.
\<close>

theorem fixalloc_reuse_lifo:
  "(fixalloc_init f0 size0 first arg stat = Inr f \<and> chunks_sane (sys_chunks w) \<and> 0 < k \<and>
    allocs k f w = Inr (ps, f1, w1) \<and> distinct qs \<and> set qs = set ps \<longrightarrow>
      (\<exists>f2 w2 f3 w3. frees qs f1 w1 = Inr (f2, w2) \<and>
          allocs k f2 w2 = Inr (rev qs, f3, w3) \<and>
          first_calls w3 = first_calls w1 \<and> sys_chunks w3 = sys_chunks w1) \<and>
      first_calls w1 = first_calls w @ (if first then map (Pair arg) ps else [])) \<and>
   (size_f f \<noteq> 0 \<and> 0 < k \<and> allocs k f w = Inr (ps, f1, w1) \<and> separate (size_f f) ps \<and>
    distinct qs \<and> set qs = set ps \<longrightarrow>
      (\<exists>f2 w2 f3 w3. frees qs f1 w1 = Inr (f2, w2) \<and>
          allocs k f2 w2 = Inr (rev qs, f3, w3) \<and>
          first_calls w3 = first_calls w1 \<and> sys_chunks w3 = sys_chunks w1)) \<and>
   (\<forall>g u v g' u'. fixalloc_alloc g u = Inr (v, g', u') \<longrightarrow>
      first_calls u' = (if list_f g = 0 \<and> first_f g then first_calls u @ [(arg_f g, v)] else first_calls u))"
proof (intro conjI impI allI)
  assume a: "fixalloc_init f0 size0 first arg stat = Inr f \<and> chunks_sane (sys_chunks w) \<and> 0 < k \<and>
    allocs k f w = Inr (ps, f1, w1) \<and> distinct qs \<and> set qs = set ps"
  then have init: "fixalloc_init f0 size0 first arg stat = Inr f" and sane: "chunks_sane (sys_chunks w)"
    and run: "allocs k f w = Inr (ps, f1, w1)" and qs: "distinct qs" "set qs = set ps"
    by simp_all
  note fld = fixalloc_init_fields[OF init]
  from fresh_allocs_separate[OF init sane run] have sep: "separate (size_f f) ps"
    and fc: "first_calls w1 = first_calls w @ (if first_f f then map (Pair (arg_f f)) ps else [])"
    by simp_all
  show "\<exists>f2 w2 f3 w3. frees qs f1 w1 = Inr (f2, w2) \<and>
          allocs k f2 w2 = Inr (rev qs, f3, w3) \<and>
          first_calls w3 = first_calls w1 \<and> sys_chunks w3 = sys_chunks w1"
    by (rule reuse_lifo[OF fld(1) run sep qs])
  show "first_calls w1 = first_calls w @ (if first then map (Pair arg) ps else [])"
    using fc fld by simp
next
  assume "size_f f \<noteq> 0 \<and> 0 < k \<and> allocs k f w = Inr (ps, f1, w1) \<and> separate (size_f f) ps \<and>
    distinct qs \<and> set qs = set ps"
  then have b: "size_f f \<noteq> 0" "allocs k f w = Inr (ps, f1, w1)" "separate (size_f f) ps"
    "distinct qs" "set qs = set ps"
    by simp_all
  show "\<exists>f2 w2 f3 w3. frees qs f1 w1 = Inr (f2, w2) \<and>
          allocs k f2 w2 = Inr (rev qs, f3, w3) \<and>
          first_calls w3 = first_calls w1 \<and> sys_chunks w3 = sys_chunks w1"
    by (rule reuse_lifo[OF b])
next
  fix g u v g' u'
  assume "fixalloc_alloc g u = Inr (v, g', u')"
  then show "first_calls u' = (if list_f g = 0 \<and> first_f g then first_calls u @ [(arg_f g, v)] else first_calls u)"
    by (rule fixalloc_alloc_first)
qed

theorem fixalloc_reuse_lifo_witness:
  "fixalloc_init fixalloc_zero 4096 True 7 0 = Inr fixalloc_4k \<and>
   chunks_sane (sys_chunks sysmem0) \<and> (0 :: nat) < 5 \<and>
   allocs 5 fixalloc_4k sysmem0 = Inr (reuse_ps, fixalloc_5, sysmem_5) \<and>
   size_f fixalloc_4k \<noteq> 0 \<and> separate (size_f fixalloc_4k) reuse_ps \<and>
   distinct reuse_qs \<and> set reuse_qs = set reuse_ps \<and>
   (\<exists>f2 w2 f3 w3. frees reuse_qs fixalloc_5 sysmem_5 = Inr (f2, w2) \<and>
      allocs 5 f2 w2 =
        Inr ([0xC000003000, 0xC000001000, 0xC000400000, 0xC000000000, 0xC000002000], f3, w3) \<and>
      first_calls w3 = map (Pair 7) reuse_ps \<and> sys_chunks w3 = []) \<and>
   first_calls sysmem_5 = first_calls sysmem0 @ map (Pair 7) reuse_ps"
proof -
  have h1: "chunks_sane (sys_chunks sysmem0)"
    by (simp add: chunks_sane_def sysmem0_def FixAllocChunk_def)
  have h2: "(0 :: nat) < 5" by simp
  have h3: "size_f fixalloc_4k \<noteq> 0" by (simp add: fixalloc_4k_def)
  have h4: "separate (size_f fixalloc_4k) reuse_ps" by code_simp
  have h5: "distinct reuse_qs" by code_simp
  have h6: "set reuse_qs = set reuse_ps" by code_simp
  have r: "rev reuse_qs = [0xC000003000, 0xC000001000, 0xC000400000, 0xC000000000, 0xC000002000]"
    by (simp add: reuse_qs_def)
  have w: "first_calls sysmem_5 = map (Pair 7) reuse_ps" "sys_chunks sysmem_5 = []"
    by (simp_all add: sysmem_5_def)
  note t = fixalloc_reuse_lifo[of fixalloc_zero 4096 True 7 0 fixalloc_4k sysmem0 5 reuse_ps
      fixalloc_5 sysmem_5 reuse_qs, THEN conjunct1, rule_format,
      OF conjI[OF init_4k_run conjI[OF h1 conjI[OF h2 conjI[OF allocs_5_run conjI[OF h5 h6]]]]]]
  from t have a: "\<exists>f2 w2 f3 w3. frees reuse_qs fixalloc_5 sysmem_5 = Inr (f2, w2) \<and>
      allocs 5 f2 w2 = Inr (rev reuse_qs, f3, w3) \<and>
      first_calls w3 = first_calls sysmem_5 \<and> sys_chunks w3 = sys_chunks sysmem_5"
    by (rule conjunct1)
  from t have b: "first_calls sysmem_5 = first_calls sysmem0 @ (if True then map (Pair 7) reuse_ps else [])"
    by (rule conjunct2)
  from b have b': "first_calls sysmem_5 = first_calls sysmem0 @ map (Pair 7) reuse_ps" by simp
  from a have a': "\<exists>f2 w2 f3 w3. frees reuse_qs fixalloc_5 sysmem_5 = Inr (f2, w2) \<and>
      allocs 5 f2 w2 =
        Inr ([0xC000003000, 0xC000001000, 0xC000400000, 0xC000000000, 0xC000002000], f3, w3) \<and>
      first_calls w3 = map (Pair 7) reuse_ps \<and> sys_chunks w3 = []"
    unfolding r w .
  show ?thesis
    by (intro conjI init_4k_run h1 h2 allocs_5_run h3 h4 h5 h6 a' b')
qed

text \<open>
  Claim C9. \<open>alloc\<close> on an allocator whose \<open>size\<close> is still zero throws, and \<open>init\<close> with a
  size above \<open>_FixAllocChunk\<close> throws. Conversely \<open>init\<close> with a size of at most
  \<open>_FixAllocChunk\<close> returns normally with a non-zero \<open>size\<close>, and after it no sequence of
  \<open>alloc\<close> and \<open>free\<close> calls ends in the throw of \<open>alloc\<close>.
\<close>

theorem fixalloc_fatal_branches:
  "(size_f f = 0 \<longrightarrow> fixalloc_alloc f w = Inl (Throw ''runtime: internal error'')) \<and>
   (FixAllocChunk < size0 \<longrightarrow>
      fixalloc_init f size0 first arg stat = Inl (Throw ''runtime: fixalloc size too large'')) \<and>
   (size0 \<le> FixAllocChunk \<longrightarrow>
      (\<exists>f'. fixalloc_init f size0 first arg stat = Inr f' \<and> size_f f' \<noteq> 0 \<and>
         (\<forall>ops u. run_ops ops f' u \<noteq> Inl (Throw ''runtime: internal error''))))"
proof (intro conjI impI)
  show "fixalloc_alloc f w = Inl (Throw ''runtime: internal error'')" if "size_f f = 0"
    using that by (simp add: fixalloc_alloc_def)
  show "fixalloc_init f size0 first arg stat = Inl (Throw ''runtime: fixalloc size too large'')"
    if "FixAllocChunk < size0"
    using that by (simp add: fixalloc_init_def)
  assume "size0 \<le> FixAllocChunk"
  from fixalloc_init_ok[OF this, of f first arg stat] obtain f' where
    "fixalloc_init f size0 first arg stat = Inr f'" "size_f f' \<noteq> 0" by blast
  then show "\<exists>f'. fixalloc_init f size0 first arg stat = Inr f' \<and> size_f f' \<noteq> 0 \<and>
         (\<forall>ops u. run_ops ops f' u \<noteq> Inl (Throw ''runtime: internal error''))"
    using run_ops_no_internal_error by blast
qed

theorem fixalloc_fatal_branches_witness:
  "size_f fixalloc_zero = 0 \<and>
   fixalloc_alloc fixalloc_zero sysmem0 = Inl (Throw ''runtime: internal error'') \<and>
   FixAllocChunk < 16385 \<and>
   fixalloc_init fixalloc_zero 16385 True 7 0 = Inl (Throw ''runtime: fixalloc size too large'') \<and>
   4096 \<le> FixAllocChunk \<and>
   fixalloc_init fixalloc_zero 4096 True 7 0 = Inr fixalloc_4k \<and>
   (\<forall>ops u. run_ops ops fixalloc_4k u \<noteq> Inl (Throw ''runtime: internal error''))"
proof -
  have h1: "size_f fixalloc_zero = 0" by (simp add: fixalloc_zero_def)
  have h2: "FixAllocChunk < 16385" by (simp add: FixAllocChunk_def)
  have h3: "4096 \<le> FixAllocChunk" by (simp add: FixAllocChunk_def)
  have i: "fixalloc_init fixalloc_zero 4096 True 7 0 = Inr fixalloc_4k"
    by (simp add: fixalloc_init_def fixalloc_zero_def fixalloc_4k_def FixAllocChunk_def sizeof_mlink_def)
  from fixalloc_fatal_branches[of fixalloc_zero sysmem0 16385 True 7 0] h1 h2
  have a: "fixalloc_alloc fixalloc_zero sysmem0 = Inl (Throw ''runtime: internal error'')"
    and b: "fixalloc_init fixalloc_zero 16385 True 7 0 = Inl (Throw ''runtime: fixalloc size too large'')"
    by blast+
  from fixalloc_fatal_branches[of fixalloc_zero sysmem0 4096 True 7 0] h3 i
  have c: "\<forall>ops u. run_ops ops fixalloc_4k u \<noteq> Inl (Throw ''runtime: internal error'')"
    by auto
  from h1 h2 h3 i a b c show ?thesis by blast
qed

section \<open>Properties of the central page allocator\<close>

lemma page_index_eq: "x = j \<longleftrightarrow> x div 64 = j div 64 \<and> x mod 64 = (j :: nat) mod 64"
  by (metis div_mult_mod_eq)

lemma pbit_clear:
  "pbit (b(j div 64 := b (j div 64) AND NOT (2 ^ (j mod 64)))) x \<longleftrightarrow> pbit b x \<and> x \<noteq> j"
  using page_index_eq[of x j]
  by (auto simp: pbit_def bit_simps)

lemma pbit_set1: "pbit (set1 j b) x \<longleftrightarrow> pbit b x \<or> x = j"
  using page_index_eq[of x j]
  by (auto simp: pbit_def set1_def bit_simps)

lemma test_bit: "(w AND 2 ^ i \<noteq> 0) = bit (w :: uint64) i"
  using bit_iff_and_push_bit_not_eq_0[of w i] by simp

lemma unat_pi_add:
  assumes "unat (pi :: uint) + 64 \<le> pallocChunkPages" "i < 64"
  shows "unat (pi + of_nat i) = unat pi + i"
proof -
  have "unat (of_nat i :: uint) = i" using assms(2) by (simp add: unat_of_nat)
  moreover have "unat pi + i < 2 ^ 64" using assms by (simp add: pallocChunkPages_def)
  ultimately show ?thesis by (simp add: unat_add_lem[THEN iffD1])
qed

lemma free1_in:
  assumes "unat i < pallocChunkPages"
  shows "\<exists>d'. free1 d i = Inr d' \<and> scavenged d' = scavenged d \<and>
     (\<forall>x. pbit (pallocBits d') x \<longleftrightarrow> pbit (pallocBits d) x \<and> x \<noteq> unat i)"
  using assms by (simp add: free1_def pbit_clear)

lemma setRange_1_in:
  assumes "unat i < pallocChunkPages"
  shows "\<exists>s. setRange b i 1 = Inr s \<and> (\<forall>x. pbit s x \<longleftrightarrow> pbit b x \<or> x = unat i)"
  using assms by (simp add: setRange_def pbit_set1)

lemma flush_step:
  assumes "i < 64" and "unat pi + 64 \<le> pallocChunkPages"
  shows "\<exists>p2. flush_loop c ci pi i p = flush_loop c ci pi (Suc i) p2 \<and>
     searchAddr p2 = searchAddr p \<and> summary p2 = summary p \<and> p_end p2 = p_end p \<and>
     (\<forall>k. k \<noteq> ci \<longrightarrow> chunks p2 k = chunks p k) \<and>
     (\<forall>x. pbit (pallocBits (chunks p2 ci)) x \<longleftrightarrow>
          pbit (pallocBits (chunks p ci)) x \<and> \<not> (x = unat pi + i \<and> bit (cache c) i)) \<and>
     (\<forall>x. pbit (scavenged (chunks p2 ci)) x \<longleftrightarrow>
          pbit (scavenged (chunks p ci)) x \<or> (x = unat pi + i \<and> bit (scav c) i))"
proof -
  let ?j = "pi + of_nat i"
  have j: "unat ?j = unat pi + i" by (rule unat_pi_add[OF assms(2,1)])
  then have jin: "unat ?j < pallocChunkPages" using assms by simp
  define p1 where "p1 = (if bit (cache c) i
      then p\<lparr>chunks := (chunks p)(ci := projr (free1 (chunks p ci) ?j))\<rparr> else p)"
  define p2 where "p2 = (if bit (scav c) i
      then p1\<lparr>chunks := (chunks p1)(ci := (chunks p1 ci)\<lparr>scavenged := projr (setRange (scavenged (chunks p1 ci)) ?j 1)\<rparr>)\<rparr>
      else p1)"
  from free1_in[OF jin, of "chunks p ci"] obtain d' where
    d': "free1 (chunks p ci) ?j = Inr d'" "scavenged d' = scavenged (chunks p ci)"
      "\<forall>x. pbit (pallocBits d') x \<longleftrightarrow> pbit (pallocBits (chunks p ci)) x \<and> x \<noteq> unat ?j"
    by blast
  from setRange_1_in[OF jin, of "scavenged (chunks p1 ci)"] obtain s where
    s: "setRange (scavenged (chunks p1 ci)) ?j 1 = Inr s"
      "\<forall>x. pbit s x \<longleftrightarrow> pbit (scavenged (chunks p1 ci)) x \<or> x = unat ?j"
    by blast
  have b1: "(if cache c AND push_bit i 1 \<noteq> 0
              then (case free1 (chunks p ci) ?j of
                      Inl e \<Rightarrow> Inl e
                    | Inr d \<Rightarrow> Inr (p\<lparr>chunks := (chunks p)(ci := d)\<rparr>))
              else Inr p) = Inr p1"
    using d'(1) by (simp add: test_bit p1_def)
  have b2: "(if scav c AND push_bit i 1 \<noteq> 0
                   then (case setRange (scavenged (chunks p1 ci)) ?j 1 of
                           Inl e \<Rightarrow> Inl e
                         | Inr s \<Rightarrow> Inr (p1\<lparr>chunks := (chunks p1)(ci := (chunks p1 ci)\<lparr>scavenged := s\<rparr>)\<rparr>))
                   else Inr p1) = Inr p2"
    using s(1) by (simp add: test_bit p2_def)
  have step: "flush_loop c ci pi i p = flush_loop c ci pi (Suc i) p2"
    using assms(1) by (subst flush_loop.simps) (simp only: b1 b2 if_True sum.case Suc_eq_plus1)
  have p1: "searchAddr p1 = searchAddr p" "summary p1 = summary p" "p_end p1 = p_end p"
    "\<forall>k. k \<noteq> ci \<longrightarrow> chunks p1 k = chunks p k"
    "\<forall>x. pbit (pallocBits (chunks p1 ci)) x \<longleftrightarrow>
          pbit (pallocBits (chunks p ci)) x \<and> \<not> (x = unat pi + i \<and> bit (cache c) i)"
    "scavenged (chunks p1 ci) = scavenged (chunks p ci)"
    using d' j by (auto simp: p1_def)
  have p2: "searchAddr p2 = searchAddr p1" "summary p2 = summary p1" "p_end p2 = p_end p1"
    "\<forall>k. k \<noteq> ci \<longrightarrow> chunks p2 k = chunks p1 k"
    "pallocBits (chunks p2 ci) = pallocBits (chunks p1 ci)"
    "\<forall>x. pbit (scavenged (chunks p2 ci)) x \<longleftrightarrow>
          pbit (scavenged (chunks p1 ci)) x \<or> (x = unat pi + i \<and> bit (scav c) i)"
    using s j by (auto simp: p2_def)
  show ?thesis
    using step p1 p2 by (intro exI[of _ p2]) simp
qed

lemma flush_loop_effect:
  assumes "unat pi + 64 \<le> pallocChunkPages" and "i \<le> 64"
  shows "\<exists>p'. flush_loop c ci pi i p = Inr p' \<and>
      searchAddr p' = searchAddr p \<and> summary p' = summary p \<and> p_end p' = p_end p \<and>
      (\<forall>k. k \<noteq> ci \<longrightarrow> chunks p' k = chunks p k) \<and>
      (\<forall>x. pbit (pallocBits (chunks p' ci)) x \<longleftrightarrow>
           pbit (pallocBits (chunks p ci)) x \<and>
           \<not> (unat pi + i \<le> x \<and> x < unat pi + 64 \<and> bit (cache c) (x - unat pi))) \<and>
      (\<forall>x. pbit (scavenged (chunks p' ci)) x \<longleftrightarrow>
           pbit (scavenged (chunks p ci)) x \<or>
           (unat pi + i \<le> x \<and> x < unat pi + 64 \<and> bit (scav c) (x - unat pi)))"
  using assms(2)
proof (induction "64 - i" arbitrary: i p)
  case 0
  then have "i = 64" by simp
  then show ?case by (subst flush_loop.simps) auto
next
  case (Suc n)
  then have i: "i < 64" and n: "n = 64 - Suc i" and le: "Suc i \<le> 64" by auto
  from flush_step[OF i assms(1), of c ci p] obtain p2 where
    st: "flush_loop c ci pi i p = flush_loop c ci pi (Suc i) p2"
    and k2: "searchAddr p2 = searchAddr p" "summary p2 = summary p" "p_end p2 = p_end p"
      "\<forall>k. k \<noteq> ci \<longrightarrow> chunks p2 k = chunks p k"
    and a2: "\<forall>x. pbit (pallocBits (chunks p2 ci)) x \<longleftrightarrow>
          pbit (pallocBits (chunks p ci)) x \<and> \<not> (x = unat pi + i \<and> bit (cache c) i)"
    and s2: "\<forall>x. pbit (scavenged (chunks p2 ci)) x \<longleftrightarrow>
          pbit (scavenged (chunks p ci)) x \<or> (x = unat pi + i \<and> bit (scav c) i)"
    by blast
  from Suc.hyps(1)[OF n le, of p2] obtain p' where
    r: "flush_loop c ci pi (Suc i) p2 = Inr p'"
    and k': "searchAddr p' = searchAddr p2" "summary p' = summary p2" "p_end p' = p_end p2"
      "\<forall>k. k \<noteq> ci \<longrightarrow> chunks p' k = chunks p2 k"
    and a': "\<forall>x. pbit (pallocBits (chunks p' ci)) x \<longleftrightarrow>
           pbit (pallocBits (chunks p2 ci)) x \<and>
           \<not> (unat pi + Suc i \<le> x \<and> x < unat pi + 64 \<and> bit (cache c) (x - unat pi))"
    and s': "\<forall>x. pbit (scavenged (chunks p' ci)) x \<longleftrightarrow>
           pbit (scavenged (chunks p2 ci)) x \<or>
           (unat pi + Suc i \<le> x \<and> x < unat pi + 64 \<and> bit (scav c) (x - unat pi))"
    by blast
  have a: "pbit (pallocBits (chunks p' ci)) x \<longleftrightarrow>
           pbit (pallocBits (chunks p ci)) x \<and>
           \<not> (unat pi + i \<le> x \<and> x < unat pi + 64 \<and> bit (cache c) (x - unat pi))" for x
  proof (cases "x = unat pi + i")
    case True
    then show ?thesis using a' a2 i by auto
  next
    case False
    then have "unat pi + i \<le> x \<longleftrightarrow> unat pi + Suc i \<le> x" by auto
    then show ?thesis using a' a2 False by auto
  qed
  have s: "pbit (scavenged (chunks p' ci)) x \<longleftrightarrow>
           pbit (scavenged (chunks p ci)) x \<or>
           (unat pi + i \<le> x \<and> x < unat pi + 64 \<and> bit (scav c) (x - unat pi))" for x
  proof (cases "x = unat pi + i")
    case True
    then show ?thesis using s' s2 i by auto
  next
    case False
    then have "unat pi + i \<le> x \<longleftrightarrow> unat pi + Suc i \<le> x" by auto
    then show ?thesis using s' s2 False by auto
  qed
  show ?case
    using st r k' k2 a s by (intro exI[of _ p']) simp
qed

lemma update_fields [simp]:
  "searchAddr (update p b n contig al) = searchAddr p"
  "chunks (update p b n contig al) = chunks p"
  "p_end (update p b n contig al) = p_end p"
  by (simp_all add: update_def)

lemma allocToCache_take_fields:
  "fst (allocToCache_take p k c) = c"
  "searchAddr (snd (allocToCache_take p k c)) = base c + pageSize * (pageCachePages - 1)"
  "p_end (snd (allocToCache_take p k c)) = p_end p"
  by (simp_all add: allocToCache_take_def Let_def)

lemma allocToCache_cases:
  assumes "allocToCache p = Inr (c, p')"
  shows "(c = pageCache_zero \<and> p' = p \<and> p_end p \<le> chunkIndex (searchAddr p)) \<or>
         (c = pageCache_zero \<and> p' = p\<lparr>searchAddr := maxSearchAddr\<rparr> \<and>
            chunkIndex (searchAddr p) < p_end p \<and>
            summary p (chunkIndex (searchAddr p)) = pallocSum_zero \<and> pageAlloc_find p 1 = 0) \<or>
         (chunkIndex (searchAddr p) < p_end p \<and> (\<exists>k. (c, p') = allocToCache_take p k c))"
proof -
  have eq: "(c, p') = allocToCache_take p k c0 \<Longrightarrow> (c, p') = allocToCache_take p k c" for k c0
    using allocToCache_take_fields(1)[of p k c0] by (metis fst_conv)
  show ?thesis
    using assms
    by (auto simp: allocToCache_def Let_def not_le split: if_splits dest!: sym[of "allocToCache_take _ _ _"] eq[OF sym])
qed

lemma pageSize_neq: "base c + 63 * pageSize \<noteq> base c + 64 * pageSize"
  by (simp add: pageSize_def)

lemma spec_alloc_run:
  "\<not> isl (allocToCache spec_alloc) \<and> fst (projr (allocToCache spec_alloc)) = spec_cache \<and>
   searchAddr (snd (projr (allocToCache spec_alloc))) = 0x47E000"
  by code_simp

text \<open>
  Claim C3, as the code has it. After a call of \<open>allocToCache\<close> that returns a non-empty
  cache with base \<open>b\<close>, the search address is \<open>b + pageSize * (pageCachePages - 1)\<close>, that
  is \<open>b + 63 * pageSize\<close>: the address of the last page of the returned window, and not
  \<open>b + 64 * pageSize\<close>, the first address after it. The comment above the assignment
  gives the reason: the search address may not point into unmapped memory.
\<close>

theorem allocToCache_searchAddr_last_page:
  assumes "allocToCache p = Inr (c, p')" and "cache c \<noteq> 0"
  shows "searchAddr p' = base c + pageSize * (pageCachePages - 1) \<and>
         searchAddr p' = base c + 63 * pageSize \<and>
         searchAddr p' \<noteq> base c + 64 * pageSize"
proof -
  from allocToCache_cases[OF assms(1)] assms(2)
  obtain k where "(c, p') = allocToCache_take p k c"
    by (auto simp: pageCache_zero_def)
  then have "p' = snd (allocToCache_take p k c)" by (metis snd_conv)
  then have s: "searchAddr p' = base c + pageSize * (pageCachePages - 1)"
    by (simp add: allocToCache_take_fields)
  then have "searchAddr p' = base c + 63 * pageSize"
    by (simp add: pageCachePages_def)
  with s pageSize_neq[of c] show ?thesis by simp
qed

theorem allocToCache_searchAddr_last_page_witness:
  "allocToCache spec_alloc = Inr (spec_cache, snd (projr (allocToCache spec_alloc))) \<and>
   cache spec_cache \<noteq> 0 \<and>
   searchAddr (snd (projr (allocToCache spec_alloc))) = base spec_cache + 63 * pageSize"
proof -
  have "\<not> isl (allocToCache spec_alloc)" "fst (projr (allocToCache spec_alloc)) = spec_cache"
    using spec_alloc_run by simp_all
  then have r: "allocToCache spec_alloc = Inr (spec_cache, snd (projr (allocToCache spec_alloc)))"
    by (cases "allocToCache spec_alloc") auto
  have h: "cache spec_cache \<noteq> 0" by code_simp
  from allocToCache_searchAddr_last_page[OF r h] r h show ?thesis by blast
qed

text \<open>
  The claim as stated fails on the allocator of the spec's scenario: the cache returned has
  base \<open>0x400000\<close>, and the search address is left at \<open>0x47E000\<close>, not at \<open>0x480000\<close>.
\<close>

theorem allocToCache_searchAddr_cex:
  "\<not> isl (allocToCache spec_alloc) \<and>
   fst (projr (allocToCache spec_alloc)) = spec_cache \<and>
   cache spec_cache \<noteq> 0 \<and> base spec_cache = 0x400000 \<and>
   searchAddr (snd (projr (allocToCache spec_alloc))) = 0x47E000 \<and>
   base spec_cache + 64 * pageSize = 0x480000 \<and>
   searchAddr (snd (projr (allocToCache spec_alloc))) \<noteq> base spec_cache + 64 * pageSize"
  using spec_alloc_run by (simp add: spec_cache_def pageSize_def)

text \<open>
  Claim C5, as the code has it. \<open>flush\<close> of a cache whose free bitmap is zero returns at
  once: the cache, whatever its base and scavenged bitmap, and the central allocator stay
  as they are. \<open>flush\<close> of a cache whose free bitmap is not zero, and whose 64-page window
  lies within one chunk (as a 64-page-aligned base makes it), frees in the chunk's bitmap
  exactly the pages whose free bit is set in the cache, marks scavenged exactly the pages
  whose scavenged bit is set in the cache, touches no other chunk, and resets the cache to
  its zero value.
\<close>

theorem flush_returns_pages:
  "(cache c = 0 \<longrightarrow> flush c p = Inr (c, p)) \<and>
   (cache c \<noteq> 0 \<and> unat (chunkPageIndex (base c)) + 64 \<le> pallocChunkPages \<longrightarrow>
      (\<exists>p'. flush c p = Inr (pageCache_zero, p') \<and>
         (\<forall>k. k \<noteq> chunkIndex (base c) \<longrightarrow> chunks p' k = chunks p k) \<and>
         (\<forall>x. pbit (pallocBits (chunks p' (chunkIndex (base c)))) x \<longleftrightarrow>
              pbit (pallocBits (chunks p (chunkIndex (base c)))) x \<and>
              \<not> (unat (chunkPageIndex (base c)) \<le> x \<and> x < unat (chunkPageIndex (base c)) + 64 \<and>
                 bit (cache c) (x - unat (chunkPageIndex (base c))))) \<and>
         (\<forall>x. pbit (scavenged (chunks p' (chunkIndex (base c)))) x \<longleftrightarrow>
              pbit (scavenged (chunks p (chunkIndex (base c)))) x \<or>
              (unat (chunkPageIndex (base c)) \<le> x \<and> x < unat (chunkPageIndex (base c)) + 64 \<and>
                 bit (scav c) (x - unat (chunkPageIndex (base c)))))))"
proof (intro conjI impI)
  show "flush c p = Inr (c, p)" if "cache c = 0"
    using that by (simp add: flush_def empty_def)
next
  let ?ci = "chunkIndex (base c)" and ?pi = "chunkPageIndex (base c)"
  assume a: "cache c \<noteq> 0 \<and> unat ?pi + 64 \<le> pallocChunkPages"
  from flush_loop_effect[of ?pi 0 c ?ci p] a obtain p1 where
    l: "flush_loop c ?ci ?pi 0 p = Inr p1"
    and k: "\<forall>k. k \<noteq> ?ci \<longrightarrow> chunks p1 k = chunks p k"
    and b: "\<forall>x. pbit (pallocBits (chunks p1 ?ci)) x \<longleftrightarrow>
           pbit (pallocBits (chunks p ?ci)) x \<and>
           \<not> (unat ?pi + 0 \<le> x \<and> x < unat ?pi + 64 \<and> bit (cache c) (x - unat ?pi))"
    and s: "\<forall>x. pbit (scavenged (chunks p1 ?ci)) x \<longleftrightarrow>
           pbit (scavenged (chunks p ?ci)) x \<or>
           (unat ?pi + 0 \<le> x \<and> x < unat ?pi + 64 \<and> bit (scav c) (x - unat ?pi))"
    by auto
  let ?p2 = "if lessThan_offAddr (base c) (searchAddr p1) then p1\<lparr>searchAddr := base c\<rparr> else p1"
  let ?p3 = "update ?p2 (base c) pageCachePages False False"
  have f: "flush c p = Inr (pageCache_zero, ?p3)"
    using a l by (simp add: flush_def empty_def Let_def)
  have c3: "chunks ?p3 = chunks p1" by simp
  show "\<exists>p'. flush c p = Inr (pageCache_zero, p') \<and>
         (\<forall>k. k \<noteq> ?ci \<longrightarrow> chunks p' k = chunks p k) \<and>
         (\<forall>x. pbit (pallocBits (chunks p' ?ci)) x \<longleftrightarrow>
              pbit (pallocBits (chunks p ?ci)) x \<and>
              \<not> (unat ?pi \<le> x \<and> x < unat ?pi + 64 \<and> bit (cache c) (x - unat ?pi))) \<and>
         (\<forall>x. pbit (scavenged (chunks p' ?ci)) x \<longleftrightarrow>
              pbit (scavenged (chunks p ?ci)) x \<or>
              (unat ?pi \<le> x \<and> x < unat ?pi + 64 \<and> bit (scav c) (x - unat ?pi)))"
    using f k b s unfolding c3[symmetric] by (intro exI[of _ ?p3]) simp
qed

theorem flush_returns_pages_witness:
  "cache stale_cache = 0 \<and> flush stale_cache full_alloc = Inr (stale_cache, full_alloc) \<and>
   cache spec_cache \<noteq> 0 \<and> unat (chunkPageIndex (base spec_cache)) + 64 \<le> pallocChunkPages \<and>
   (\<exists>p'. flush spec_cache full_alloc = Inr (pageCache_zero, p') \<and>
      free_page (chunks p' 1) 9 \<and> \<not> free_page (chunks p' 1) 10 \<and>
      pbit (scavenged (chunks p' 1)) 5 \<and> \<not> pbit (scavenged (chunks p' 1)) 9)"
proof -
  have h0: "cache stale_cache = 0" by (simp add: stale_cache_def)
  have h1: "cache spec_cache \<noteq> 0" by code_simp
  have h2: "unat (chunkPageIndex (base spec_cache)) + 64 \<le> pallocChunkPages" by code_simp
  have ci: "chunkIndex (base spec_cache) = 1" and pi: "unat (chunkPageIndex (base spec_cache)) = 0"
    by code_simp+
  have bits: "bit (cache spec_cache) 9" "\<not> bit (cache spec_cache) 10"
    "bit (scav spec_cache) 5" "\<not> bit (scav spec_cache) 9"
    by code_simp+
  have old: "pbit (pallocBits (chunks full_alloc 1)) 9" "pbit (pallocBits (chunks full_alloc 1)) 10"
    "\<not> pbit (scavenged (chunks full_alloc 1)) 5" "\<not> pbit (scavenged (chunks full_alloc 1)) 9"
    by code_simp+
  from flush_returns_pages[of stale_cache full_alloc] h0
  have a: "flush stale_cache full_alloc = Inr (stale_cache, full_alloc)" by blast
  note inst = flush_returns_pages[of spec_cache full_alloc, THEN conjunct2, THEN mp, OF conjI, OF h1 h2]
  from inst[unfolded ci pi] obtain p' where
    f: "flush spec_cache full_alloc = Inr (pageCache_zero, p')"
    and b: "\<forall>x. pbit (pallocBits (chunks p' 1)) x \<longleftrightarrow>
              pbit (pallocBits (chunks full_alloc 1)) x \<and>
              \<not> (0 \<le> x \<and> x < 0 + 64 \<and> bit (cache spec_cache) (x - 0))"
    and s: "\<forall>x. pbit (scavenged (chunks p' 1)) x \<longleftrightarrow>
              pbit (scavenged (chunks full_alloc 1)) x \<or>
              (0 \<le> x \<and> x < 0 + 64 \<and> bit (scav spec_cache) (x - 0))"
    by (elim exE conjE) simp
  have "free_page (chunks p' 1) 9 \<and> \<not> free_page (chunks p' 1) 10 \<and>
      pbit (scavenged (chunks p' 1)) 5 \<and> \<not> pbit (scavenged (chunks p' 1)) 9"
    using b s bits old by (simp add: free_page_def)
  with f h0 h1 h2 a show ?thesis by blast
qed

text \<open>
  The claim as stated fails on a cache whose free bitmap is zero and whose scavenged bitmap
  is not: \<open>flush\<close> leaves the cache as it is, not at its zero value, and page 5 of the
  chunk is not marked scavenged.
\<close>

theorem flush_empty_cache_cex:
  "cache stale_cache = 0 \<and> scav stale_cache \<noteq> 0 \<and>
   flush stale_cache full_alloc = Inr (stale_cache, full_alloc) \<and>
   stale_cache \<noteq> pageCache_zero \<and>
   bit (scav stale_cache) 5 \<and>
   \<not> pbit (scavenged (chunks full_alloc (chunkIndex (base stale_cache))))
        (unat (chunkPageIndex (base stale_cache)) + 5)"
proof -
  have "flush stale_cache full_alloc = Inr (stale_cache, full_alloc)"
    by (simp add: flush_def empty_def stale_cache_def)
  moreover have "cache stale_cache = 0 \<and> scav stale_cache \<noteq> 0 \<and> stale_cache \<noteq> pageCache_zero \<and>
     bit (scav stale_cache) 5 \<and>
     \<not> pbit (scavenged (chunks full_alloc (chunkIndex (base stale_cache))))
        (unat (chunkPageIndex (base stale_cache)) + 5)"
    by code_simp
  ultimately show ?thesis by blast
qed

section \<open>Movement of the search address\<close>

lemma unat_pageSize: "unat pageSize = 8192"
  by (simp add: pageSize_def)

lemma unat_pallocChunkBytes: "unat pallocChunkBytes = 4194304"
  by (simp add: pallocChunkBytes_def pallocChunkPages_def pageSize_def)

lemma unat_chunkIndex: "unat (chunkIndex a) = unat a div 4194304"
  by (simp add: chunkIndex_def unat_div unat_pallocChunkBytes)

lemma unat_chunkPageIndex: "unat (chunkPageIndex a) = unat a mod 4194304 div 8192"
  by (simp add: chunkPageIndex_def unat_div unat_mod unat_pallocChunkBytes unat_pageSize)

lemma chunkPageIndex_less: "unat (chunkPageIndex a) < 512"
  unfolding unat_chunkPageIndex by (simp add: less_mult_imp_div_less)

lemma unat_chunkBase:
  assumes "unat ci * 4194304 < 2 ^ 64"
  shows "unat (chunkBase ci) = unat ci * 4194304"
  using assms unat_mult_lem[of ci pallocChunkBytes]
  by (simp add: chunkBase_def unat_pallocChunkBytes)

lemma alignDown_pow2:
  assumes "k < 64"
  shows "alignDown n (2 ^ k) = push_bit k (drop_bit k (n :: uintptr))"
proof -
  have "(2 :: uintptr) ^ k - 1 = mask k" by (simp add: mask_eq_decr_exp)
  then have "alignDown n (2 ^ k) = n AND NOT (mask k)" by (simp add: alignDown_def)
  also have "\<dots> = push_bit k (drop_bit k n)"
    by (rule bit_eqI) (auto simp: bit_simps)
  finally show ?thesis .
qed

lemma unat_alignDown_pow2:
  assumes "k < 64"
  shows "unat (alignDown n (2 ^ k)) = unat n div 2 ^ k * 2 ^ k"
proof -
  have le: "unat n div 2 ^ k * 2 ^ k \<le> unat n" by simp
  have "unat n < 2 ^ 64" using unsigned_less[of n] by simp
  with le have lt: "unat n div 2 ^ k * 2 ^ k < 2 ^ 64" by linarith
  have d: "unat (drop_bit k n) = unat n div 2 ^ k"
    by (simp only: unat_drop_bit_eq) (simp add: drop_bit_eq_div)
  have "unat (push_bit k (drop_bit k n)) = take_bit 64 (push_bit k (unat (drop_bit k n)))"
    by (simp only: unsigned_push_bit_eq) simp
  also have "\<dots> = take_bit 64 (unat n div 2 ^ k * 2 ^ k)"
    by (simp only: d push_bit_eq_mult)
  also have "\<dots> = unat n div 2 ^ k * 2 ^ k"
    using lt by (simp only: take_bit_nat_eq_self_iff)
  finally show ?thesis by (simp only: alignDown_pow2[OF assms])
qed

lemma unat_alignDown_64: "unat (alignDown n 64) = unat n div 64 * 64"
  using unat_alignDown_pow2[of 6 n] by simp

lemma unat_alignDown_window: "unat (alignDown a (64 * pageSize)) = unat a div 524288 * 524288"
  using unat_alignDown_pow2[of 19 a] by (simp add: pageSize_def)

lemma find_upt_Some:
  assumes "find P [a..<b] = Some x"
  shows "a \<le> x \<and> x < b \<and> P x \<and> (\<forall>m. a \<le> m \<and> m < x \<longrightarrow> \<not> P m)"
proof -
  from assms obtain i where i: "i < length [a..<b]" "P ([a..<b] ! i)" "x = [a..<b] ! i"
    "\<forall>k<i. \<not> P ([a..<b] ! k)"
    unfolding find_Some_iff by blast
  then have x: "x = a + i" "i < b - a" by simp_all
  have "\<not> P m" if "a \<le> m" "m < x" for m
  proof -
    from that x have "m - a < i" "m - a < b - a" by auto
    with i(4) have "\<not> P ([a..<b] ! (m - a))" by blast
    with \<open>m - a < b - a\<close> that show ?thesis by simp
  qed
  with i x show ?thesis by auto
qed

lemma pallocData_find_1:
  assumes "pallocData_find d 1 s = j" and "j \<noteq> - 1"
  shows "unat s \<le> unat j \<and> unat j < 512 \<and> free_page d (unat j) \<and>
         (\<forall>m. unat s \<le> m \<and> m < unat j \<longrightarrow> \<not> free_page d m)"
proof (cases "find (\<lambda>j. list_all (free_page d) [j..<j + unat (1 :: uintptr)]) [unat s..<pallocChunkPages + 1 - unat (1 :: uintptr)]")
  case None
  with assms show ?thesis by (simp add: pallocData_find_def)
next
  case (Some x)
  from find_upt_Some[OF Some] have x: "unat s \<le> x" "x < 512" "free_page d x"
    "\<forall>m. unat s \<le> m \<and> m < x \<longrightarrow> \<not> free_page d m"
    by (simp_all add: pallocChunkPages_def)
  from Some assms(1) have "j = of_nat x" by (simp add: pallocData_find_def)
  with x(2) have "unat j = x" by (simp add: unat_of_nat)
  with x show ?thesis by simp
qed

lemma pageAlloc_find_1:
  assumes "pageAlloc_find p 1 = addr" and "addr \<noteq> 0" and "unat (p_end p) * 4194304 \<le> 2 ^ 64"
  shows "\<exists>g. unat addr = g * 8192 \<and> unat (searchAddr p) div 8192 \<le> g \<and> g < unat (p_end p) * 512 \<and>
           page_free_at p g \<and> (\<forall>m. unat (searchAddr p) div 8192 \<le> m \<and> m < g \<longrightarrow> \<not> page_free_at p m)"
proof (cases "find (\<lambda>g. list_all (page_free_at p) [g..<g + unat (1 :: uintptr)])
               [unat (searchAddr p) div unat pageSize..<unat (p_end p) * pallocChunkPages + 1 - unat (1 :: uintptr)]")
  case None
  with assms show ?thesis by (simp add: pageAlloc_find_def split: if_splits)
next
  case (Some g)
  from find_upt_Some[OF Some] have g: "unat (searchAddr p) div 8192 \<le> g" "g < unat (p_end p) * 512"
    "page_free_at p g" "\<forall>m. unat (searchAddr p) div 8192 \<le> m \<and> m < g \<longrightarrow> \<not> page_free_at p m"
    by (simp_all add: pallocChunkPages_def unat_pageSize)
  from Some assms(1,2) have a: "addr = of_nat g * pageSize"
    by (simp add: pageAlloc_find_def split: if_splits)
  from g(2) assms(3) have lt: "g * 8192 < 2 ^ 64" by simp
  then have "g < 2 ^ 64" by simp
  then have "unat (of_nat g :: uintptr) = g" by (simp add: unat_of_nat)
  with lt have "unat (of_nat g * pageSize) = g * 8192"
    using unat_mult_lem[of "of_nat g :: uintptr" pageSize] by (simp add: unat_pageSize)
  with a g show ?thesis by blast
qed

lemma take_pallocBits:
  "pallocBits (chunks (snd (allocToCache_take p k c)) k') =
     (if k' = k
      then (pallocBits (chunks p k))
             (unat (chunkPageIndex (base c)) div 64 :=
                pallocBits (chunks p k) (unat (chunkPageIndex (base c)) div 64) OR cache c)
      else pallocBits (chunks p k'))"
  by (simp add: allocToCache_take_def Let_def allocPages64_def)

lemma allocToCache_success:
  assumes "allocToCache p = Inr (c, p')" and "cache c \<noteq> 0"
  shows "chunkIndex (searchAddr p) < p_end p \<and>
    ((\<exists>j. j = pallocData_find (chunks p (chunkIndex (searchAddr p))) 1 (chunkPageIndex (searchAddr p)) \<and>
          j \<noteq> - 1 \<and>
          base c = chunkBase (chunkIndex (searchAddr p)) + alignDown j 64 * pageSize \<and>
          cache c = NOT (pages64 (chunks p (chunkIndex (searchAddr p))) j) \<and>
          p' = snd (allocToCache_take p (chunkIndex (searchAddr p)) c)) \<or>
     (\<exists>addr. addr = pageAlloc_find p 1 \<and> addr \<noteq> 0 \<and>
          base c = alignDown addr (64 * pageSize) \<and>
          cache c = NOT (pages64 (chunks p (chunkIndex addr)) (chunkPageIndex addr)) \<and>
          p' = snd (allocToCache_take p (chunkIndex addr) c)))"
  using assms
  by (auto simp: allocToCache_def Let_def not_le pageCache_zero_def allocToCache_take_def
      split: if_splits)

lemma page_of_addr: "(n :: nat) div 8192 = n div 4194304 * 512 + n mod 4194304 div 8192"
proof -
  have a: "n div 4194304 = n div 8192 div 512"
    using div_mult2_eq[of n 8192 512] by simp
  have "n mod 4194304 = 8192 * (n div 8192 mod 512) + n mod 8192"
    using mod_mult2_eq[of n 8192 512] by simp
  then have b: "n mod 4194304 div 8192 = n div 8192 mod 512"
    by simp
  show ?thesis unfolding a b by simp
qed

lemma pages_to_bytes:
  "(g * 8192) div 524288 = (g :: nat) div 64"
  "(g * 8192) div 4194304 = (g :: nat) div 512"
  "(g * 8192) mod 4194304 div 8192 = (g :: nat) mod 512"
proof -
  show "(g * 8192) div 524288 = g div 64"
    using div_mult_mult2[of 8192 g 64] by simp
  show "(g * 8192) div 4194304 = g div 512"
    using div_mult_mult2[of 8192 g 512] by simp
  have "(g * 8192) mod (512 * 8192) = (g mod 512) * 8192"
    by (rule mult_mod_left[symmetric, THEN trans]) simp
  then show "(g * 8192) mod 4194304 div 8192 = g mod 512"
    by simp
qed

lemma window_small:
  "(c * 512 + j) div 64 = c * 8 + (j :: nat) div 64"
  "j < 512 \<Longrightarrow> (c * 512 + j) div 512 = (c :: nat)"
  "j < 512 \<Longrightarrow> (c * 512 + j) mod 512 = (j :: nat)"
  "(g div 64 * 64) mod 512 div 64 = (g :: nat) mod 512 div 64"
  "(g div 64 * 64) div 512 = (g :: nat) div 512"
proof -
  have "c * 512 + j = c * 8 * 64 + j" by simp
  then show "(c * 512 + j) div 64 = c * 8 + j div 64"
    by (simp only: div_mult_self3) 
  show "j < 512 \<Longrightarrow> (c * 512 + j) div 512 = c" by simp
  show "j < 512 \<Longrightarrow> (c * 512 + j) mod 512 = j" by simp
  have l: "(g div 64 * 64) mod (8 * 64) = (g div 64 mod 8) * 64"
    by (rule mult_mod_left[symmetric, THEN trans]) simp
  have "g mod 512 = 64 * (g div 64 mod 8) + g mod 64"
    using mod_mult2_eq[of g 64 8] by simp
  then have r: "g mod 512 div 64 = g div 64 mod 8" by simp
  from l have "(g div 64 * 64) mod 512 div 64 = g div 64 mod 8" by simp
  with r show "(g div 64 * 64) mod 512 div 64 = g mod 512 div 64" by simp
  have "(g div 64 * 64) div (8 * 64) = g div 64 div 8"
    by (rule div_mult_mult2) simp
  moreover have "g div 512 = g div 64 div 8"
    using div_mult2_eq[of g 64 8] by simp
  ultimately show "(g div 64 * 64) div 512 = g div 512" by simp
qed

lemma window_arith:
  "(c * 512 + j) div 64 * 64 * 8192 = c * 4194304 + j div 64 * 64 * (8192 :: nat)"
  "(g * 8192) div 524288 * 524288 = g div 64 * 64 * (8192 :: nat)"
  "(g div 64 * 64 * 8192) mod 4194304 div 8192 div 64 = (g :: nat) mod 512 div 64"
  "(g div 64 * 64 * 8192) div 4194304 = (g :: nat) div 512"
proof -
  show "(c * 512 + j) div 64 * 64 * 8192 = c * 4194304 + j div 64 * 64 * (8192 :: nat)"
    unfolding window_small(1) by simp
  show "(g * 8192) div 524288 * 524288 = g div 64 * 64 * (8192 :: nat)"
    unfolding pages_to_bytes(1) by simp
  show "(g div 64 * 64 * 8192) mod 4194304 div 8192 div 64 = g mod 512 div 64"
    unfolding pages_to_bytes(3) window_small(4) ..
  show "(g div 64 * 64 * 8192) div 4194304 = g div 512"
    unfolding pages_to_bytes(2) window_small(5) ..
qed

lemma in_chunk_arith:
  assumes "c * 512 + s \<le> m" and "m < c * 512 + j" and "j < (512 :: nat)"
  shows "m div 512 = c" and "s \<le> m mod 512" and "m mod 512 < j"
proof -
  have d: "m div 512 = c"
    using assms by (intro div_nat_eqI) simp_all
  then show "m div 512 = c" .
  have "m = 512 * (m div 512) + m mod 512" by simp
  then have "m = c * 512 + m mod 512" unfolding d by simp
  with assms show "s \<le> m mod 512" and "m mod 512 < j" by linarith+
qed

lemma unat_mult64: "unat a * unat b < 2 ^ 64 \<Longrightarrow> unat (a * b :: 64 word) = unat a * unat b"
  using unat_mult_lem[of a b] by simp

lemma unat_add64: "unat a + unat b < 2 ^ 64 \<Longrightarrow> unat (a + b :: 64 word) = unat a + unat b"
  using unat_add_lem[of a b] by simp

lemma of_nat_unat_eq: "unat (w :: uint) = n \<Longrightarrow> of_nat n = w"
  by auto

lemma allocToCache_found:
  assumes ok: "allocToCache p = Inr (c, p')" and ne: "cache c \<noteq> 0"
    and bound: "unat (p_end p) * 4194304 \<le> 2 ^ 64"
  shows "\<exists>G. unat (searchAddr p) div 8192 \<le> G \<and> G < unat (p_end p) * 512 \<and>
      (\<forall>m. unat (searchAddr p) div 8192 \<le> m \<and> m < G \<longrightarrow> \<not> page_free_at p m) \<and>
      unat (base c) = G div 64 * 64 * 8192 \<and>
      cache c = NOT (pallocBits (chunks p (of_nat (G div 512))) (G mod 512 div 64)) \<and>
      p' = snd (allocToCache_take p (of_nat (G div 512)) c)"
proof -
  let ?sa = "searchAddr p" and ?ci = "chunkIndex (searchAddr p)"
  from allocToCache_success[OF ok ne] have lt: "?ci < p_end p" by blast
  then have cin: "unat ?sa div 4194304 < unat (p_end p)"
    by (simp add: word_less_nat_alt unat_chunkIndex)
  from allocToCache_success[OF ok ne] consider
    (fast) j where "j = pallocData_find (chunks p ?ci) 1 (chunkPageIndex ?sa)" "j \<noteq> - 1"
      "base c = chunkBase ?ci + alignDown j 64 * pageSize"
      "cache c = NOT (pages64 (chunks p ?ci) j)"
      "p' = snd (allocToCache_take p ?ci c)"
    | (slow) addr where "addr = pageAlloc_find p 1" "addr \<noteq> 0"
      "base c = alignDown addr (64 * pageSize)"
      "cache c = NOT (pages64 (chunks p (chunkIndex addr)) (chunkPageIndex addr))"
      "p' = snd (allocToCache_take p (chunkIndex addr) c)"
    by blast
  then show ?thesis
  proof cases
    case fast
    let ?c = "unat ?sa div 4194304" and ?j = "unat j"
    let ?G = "?c * 512 + ?j"
    from pallocData_find_1[OF fast(1)[symmetric] fast(2)]
    have j: "unat ?sa mod 4194304 div 8192 \<le> ?j" "?j < 512"
      and least: "\<forall>m. unat ?sa mod 4194304 div 8192 \<le> m \<and> m < ?j \<longrightarrow> \<not> free_page (chunks p ?ci) m"
      by (simp_all add: unat_chunkPageIndex)
    have ci: "of_nat ?c = ?ci" by (rule of_nat_unat_eq) (rule unat_chunkIndex)
    have g1: "unat ?sa div 8192 \<le> ?G" using j(1) page_of_addr[of "unat ?sa"] by simp
    have "(?c + 1) * 512 \<le> unat (p_end p) * 512"
      using cin by (intro mult_le_mono1) simp
    then have g2: "?G < unat (p_end p) * 512" using j(2) by simp
    have g3: "\<forall>m. unat ?sa div 8192 \<le> m \<and> m < ?G \<longrightarrow> \<not> page_free_at p m"
    proof (intro allI impI)
      fix m assume that: "unat ?sa div 8192 \<le> m \<and> m < ?G"
      from that page_of_addr[of "unat ?sa"]
      have "?c * 512 + unat ?sa mod 4194304 div 8192 \<le> m" "m < ?c * 512 + ?j" by simp_all
      from in_chunk_arith[OF this j(2)]
      have "m div 512 = ?c" "unat ?sa mod 4194304 div 8192 \<le> m mod 512" "m mod 512 < ?j" .
      with least ci show "\<not> page_free_at p m" by (simp add: page_free_at_def pallocChunkPages_def)
    qed
    have "(?c + 1) * 4194304 \<le> unat (p_end p) * 4194304"
      using cin by (intro mult_le_mono1) simp
    with bound have "unat ?ci * 4194304 < 2 ^ 64"
      by (simp add: unat_chunkIndex)
    from unat_chunkBase[OF this] have cb: "unat (chunkBase ?ci) = ?c * 4194304"
      by (simp only: unat_chunkIndex)
    have "?j div 64 < 8" using j(2) by (simp add: less_mult_imp_div_less)
    then have "?j div 64 * (64 * 8192) \<le> 7 * (64 * 8192)" by (intro mult_le_mono1) simp
    then have jd: "?j div 64 * 64 * 8192 < 4194304" by simp
    then have "unat (alignDown j 64) * unat pageSize < 2 ^ 64"
      by (simp only: unat_alignDown_64 unat_pageSize) simp
    then have "unat (alignDown j 64 * pageSize) = unat (alignDown j 64) * unat pageSize"
      by (rule unat_mult64)
    then have al: "unat (alignDown j 64 * pageSize) = ?j div 64 * 64 * 8192"
      by (simp only: unat_alignDown_64 unat_pageSize)
    have "(?c + 1) * 4194304 \<le> unat (p_end p) * 4194304"
      using cin by (intro mult_le_mono1) simp
    with bound jd have "?c * 4194304 + ?j div 64 * 64 * 8192 < 2 ^ 64"
      by simp
    then have "unat (chunkBase ?ci) + unat (alignDown j 64 * pageSize) < 2 ^ 64"
      by (simp only: cb al)
    then have "unat (chunkBase ?ci + alignDown j 64 * pageSize) = unat (chunkBase ?ci) + unat (alignDown j 64 * pageSize)"
      by (rule unat_add64)
    then have "unat (base c) = ?c * 4194304 + ?j div 64 * 64 * 8192"
      by (simp only: fast(3) cb al)
    then have g4: "unat (base c) = ?G div 64 * 64 * 8192"
      by (simp only: window_arith(1))
    have g5: "cache c = NOT (pallocBits (chunks p (of_nat (?G div 512))) (?G mod 512 div 64))"
      using j(2) by (simp add: fast(4) pages64_def window_arith window_small ci)
    have g6: "p' = snd (allocToCache_take p (of_nat (?G div 512)) c)"
      using j(2) by (simp add: fast(5) window_arith window_small ci)
    show ?thesis by (rule exI[of _ ?G]) (intro conjI g1 g2 g3 g4 g5 g6)
  next
    case slow
    from pageAlloc_find_1[OF slow(1)[symmetric] slow(2) bound] obtain G where
      a: "unat addr = G * 8192" and g1: "unat ?sa div 8192 \<le> G" and g2: "G < unat (p_end p) * 512"
      and g3: "\<forall>m. unat ?sa div 8192 \<le> m \<and> m < G \<longrightarrow> \<not> page_free_at p m"
      by blast
    have k: "of_nat (G div 512) = chunkIndex addr"
      by (rule of_nat_unat_eq) (simp add: unat_chunkIndex a pages_to_bytes)
    have g4: "unat (base c) = G div 64 * 64 * 8192"
      by (simp add: slow(3) unat_alignDown_window a window_arith(2))
    have g5: "cache c = NOT (pallocBits (chunks p (of_nat (G div 512))) (G mod 512 div 64))"
      by (simp add: slow(4) pages64_def k unat_chunkPageIndex a pages_to_bytes)
    have g6: "p' = snd (allocToCache_take p (of_nat (G div 512)) c)"
      by (simp add: slow(5) k)
    show ?thesis by (rule exI[of _ G]) (intro conjI g1 g2 g3 g4 g5 g6)
  qed
qed

lemma window_of_page: "(g :: nat) div 64 = g div 512 * 8 + g mod 512 div 64"
proof -
  have a: "g div 512 = g div 64 div 8"
    using div_mult2_eq[of g 64 8] by simp
  have "g mod 512 = 64 * (g div 64 mod 8) + g mod 64"
    using mod_mult2_eq[of g 64 8] by simp
  then have b: "g mod 512 div 64 = g div 64 mod 8" by simp
  show ?thesis unfolding a b by simp
qed

lemma of_nat_inj64:
  assumes "a < 2 ^ 64" and "b < 2 ^ 64" and "(of_nat a :: uint) = of_nat b"
  shows "a = b"
proof -
  from assms(3) have "unat (of_nat a :: uint) = unat (of_nat b :: uint)" by simp
  with assms(1,2) show ?thesis by (simp add: unat_of_nat)
qed

lemma last_page_offset: "unat (pageSize * (pageCachePages - 1)) = 516096"
  by (simp add: pageSize_def pageCachePages_def)

lemma allocToCache_forward:
  assumes ok: "allocToCache p = Inr (c, p')" and ne: "cache c \<noteq> 0"
    and bound: "unat (p_end p) * 4194304 \<le> 2 ^ 64"
  shows "unat (searchAddr p) div 8192 \<le> unat (searchAddr p') div 8192 \<and>
         (8192 dvd unat (searchAddr p) \<longrightarrow> searchAddr p \<le> searchAddr p') \<and>
         (\<forall>g. unat (searchAddr p) div 8192 \<le> g \<and> g \<le> unat (searchAddr p') div 8192 \<longrightarrow>
              \<not> page_free_at p' g)"
proof -
  from allocToCache_found[OF ok ne bound] obtain G where
    g1: "unat (searchAddr p) div 8192 \<le> G" and g2: "G < unat (p_end p) * 512"
    and g3: "\<forall>m. unat (searchAddr p) div 8192 \<le> m \<and> m < G \<longrightarrow> \<not> page_free_at p m"
    and g4: "unat (base c) = G div 64 * 64 * 8192"
    and g5: "cache c = NOT (pallocBits (chunks p (of_nat (G div 512))) (G mod 512 div 64))"
    and g6: "p' = snd (allocToCache_take p (of_nat (G div 512)) c)"
    by blast
  let ?B = "G div 64 * 64"
  let ?k = "of_nat (G div 512) :: uint"
  have GB: "G \<le> ?B + 63"
  proof -
    have "G = ?B + G mod 64" by simp
    moreover have "G mod 64 < 64" by simp
    ultimately show ?thesis by linarith
  qed
  have "G div 64 < unat (p_end p) * 8"
    using g2 by (simp add: less_mult_imp_div_less)
  then have "(G div 64 + 1) * 64 \<le> unat (p_end p) * 8 * 64"
    by (intro mult_le_mono1) simp
  then have B64: "?B + 64 \<le> unat (p_end p) * 512" by simp
  then have "(?B + 64) * 8192 \<le> unat (p_end p) * 512 * 8192"
    by (intro mult_le_mono1)
  with bound have "?B * 8192 + 516096 < 2 ^ 64" by simp
  then have "unat (base c) + unat (pageSize * (pageCachePages - 1)) < 2 ^ 64"
    by (simp only: g4 last_page_offset)
  then have "unat (base c + pageSize * (pageCachePages - 1)) =
      unat (base c) + unat (pageSize * (pageCachePages - 1))"
    by (rule unat_add64)
  then have sa': "unat (searchAddr p') = ?B * 8192 + 516096"
    by (simp only: g6 allocToCache_take_fields(2) g4 last_page_offset)
  have "?B * 8192 + 516096 = (?B + 63) * 8192" by simp
  then have page': "unat (searchAddr p') div 8192 = ?B + 63"
    unfolding sa' by (simp only: nonzero_mult_div_cancel_right)
  have fwd: "unat (searchAddr p) div 8192 \<le> unat (searchAddr p') div 8192"
    using g1 GB page' by linarith
  have al: "searchAddr p \<le> searchAddr p'" if "8192 dvd unat (searchAddr p)"
  proof -
    from that have "unat (searchAddr p) = unat (searchAddr p) div 8192 * 8192" by simp
    also have "\<dots> \<le> (?B + 63) * 8192"
      using fwd page' by (intro mult_le_mono1) simp
    also have "\<dots> = unat (searchAddr p')" unfolding sa' by simp
    finally show ?thesis by (simp add: word_le_nat_alt)
  qed
  have W: "unat (chunkPageIndex (base c)) div 64 = G mod 512 div 64"
    by (simp only: unat_chunkPageIndex g4 window_arith(3))
  have hidden: "\<not> page_free_at p' g"
    if g: "unat (searchAddr p) div 8192 \<le> g \<and> g \<le> unat (searchAddr p') div 8192" for g
  proof (cases "g div 64 = G div 64")
    case True
    then have c: "g div 512 = G div 512" and w: "g mod 512 div 64 = G mod 512 div 64"
      using window_small(4,5)[of g] window_small(4,5)[of G] by simp_all
    have "pallocBits (chunks p' ?k) (G mod 512 div 64) = - 1"
      by (simp add: g6 take_pallocBits W g5)
    then have "pbit (pallocBits (chunks p' ?k)) (g mod 512)"
      by (simp add: pbit_def w)
    then show ?thesis
      by (simp add: page_free_at_def free_page_def pallocChunkPages_def c)
  next
    case False
    from g page' have "g \<le> ?B + 63" by simp
    then have "g div 64 \<le> (?B + 63) div 64" by (rule div_le_mono)
    moreover have "(?B + 63) div 64 = G div 64" by simp
    ultimately have "g div 64 \<le> G div 64" by simp
    with False have lt: "g div 64 < G div 64" by simp
    then have "(g div 64 + 1) * 64 \<le> ?B" by (intro mult_le_mono1) simp
    moreover have "g < (g div 64 + 1) * 64"
    proof -
      have "g = g div 64 * 64 + g mod 64" by simp
      moreover have "g mod 64 < 64" by simp
      moreover have "(g div 64 + 1) * 64 = g div 64 * 64 + 64" by simp
      ultimately show ?thesis by linarith
    qed
    moreover have "?B \<le> G" by simp
    ultimately have gG: "g < G" by linarith
    with g g3 have old: "\<not> page_free_at p g" by blast
    have same: "pallocBits (chunks p' (of_nat (g div 512))) (g mod 512 div 64) =
          pallocBits (chunks p (of_nat (g div 512))) (g mod 512 div 64)"
    proof (cases "(of_nat (g div 512) :: uint) = ?k")
      case True
      have "unat (p_end p) < 2 ^ 64" using unsigned_less[of "p_end p"] by simp
      moreover have "G div 512 < unat (p_end p)" using g2 by (simp add: less_mult_imp_div_less)
      moreover have "g div 512 \<le> G div 512" using gG by (intro div_le_mono) simp
      ultimately have "G div 512 < 2 ^ 64" "g div 512 < 2 ^ 64" by linarith+
      from of_nat_inj64[OF this(2,1) True] have "g div 512 = G div 512" .
      with lt window_of_page[of g] window_of_page[of G]
      have "g mod 512 div 64 \<noteq> G mod 512 div 64" by linarith
      then show ?thesis
        by (simp add: g6 take_pallocBits W True)
    next
      case False
      then show ?thesis by (simp add: g6 take_pallocBits)
    qed
    from old show ?thesis
      by (simp add: page_free_at_def free_page_def pallocChunkPages_def pbit_def same)
  qed
  from fwd al hidden show ?thesis by blast
qed

lemma flush_loop_step_searchAddr:
  assumes "i < 64" and "flush_loop c ci pi i p = Inr p'"
  shows "\<exists>p2. flush_loop c ci pi (Suc i) p2 = Inr p' \<and> searchAddr p2 = searchAddr p"
  using assms
  by (subst (asm) flush_loop.simps) (auto split: if_splits sum.splits)

lemma flush_loop_searchAddr:
  assumes "flush_loop c ci pi i p = Inr p'"
  shows "searchAddr p' = searchAddr p"
  using assms
proof (induction "64 - i" arbitrary: i p)
  case 0
  then have "\<not> i < 64" by simp
  with "0.prems" show ?case by (subst (asm) flush_loop.simps) simp
next
  case (Suc n)
  then have i: "i < 64" and n: "n = 64 - Suc i" by auto
  from flush_loop_step_searchAddr[OF i Suc.prems] obtain p2 where
    "flush_loop c ci pi (Suc i) p2 = Inr p'" "searchAddr p2 = searchAddr p" by blast
  with Suc.hyps(1)[OF n] show ?case by simp
qed

lemma flush_searchAddr:
  assumes "flush c p = Inr (c', p')"
  shows "searchAddr p' = (if cache c \<noteq> 0 \<and> base c < searchAddr p then base c else searchAddr p)"
proof (cases "cache c = 0")
  case True
  with assms show ?thesis by (simp add: flush_def empty_def)
next
  case False
  with assms obtain p1 where l: "flush_loop c (chunkIndex (base c)) (chunkPageIndex (base c)) 0 p = Inr p1"
    and p': "p' = update (if lessThan_offAddr (base c) (searchAddr p1) then p1\<lparr>searchAddr := base c\<rparr> else p1)
               (base c) pageCachePages False False"
    by (auto simp: flush_def empty_def Let_def split: sum.splits)
  from flush_loop_searchAddr[OF l] have "searchAddr p1 = searchAddr p" .
  with False show ?thesis by (simp add: p' lessThan_offAddr_def)
qed

lemma drained_flush_run: "\<not> isl (flush spec_cache drained_alloc)"
  by code_simp

text \<open>
  Claim C6, as the code has it. \<open>flush\<close> never increases the search address: for a cache
  whose free bitmap is not zero it sets the search address to the base of the cache exactly
  when that base is lower, and leaves it unchanged otherwise; for a cache whose free bitmap
  is zero it leaves the search address unchanged whatever the base is. A call of
  \<open>allocToCache\<close> that returns a non-empty cache, the tracked chunks lying within the
  64-bit address space, does not move the search address to an earlier page, does not
  decrease a page-aligned search address, and leaves no free page between the page of the
  old search address and the page of the new one.
\<close>

theorem searchAddr_moves:
  "(\<forall>c' p'. flush c p = Inr (c', p') \<longrightarrow>
      searchAddr p' = (if cache c \<noteq> 0 \<and> base c < searchAddr p then base c else searchAddr p) \<and>
      searchAddr p' \<le> searchAddr p) \<and>
   (\<forall>c' p'. allocToCache p = Inr (c', p') \<and> cache c' \<noteq> 0 \<and>
        unat (p_end p) * unat pallocChunkBytes \<le> 2 ^ 64 \<longrightarrow>
      unat (searchAddr p) div unat pageSize \<le> unat (searchAddr p') div unat pageSize \<and>
      (unat pageSize dvd unat (searchAddr p) \<longrightarrow> searchAddr p \<le> searchAddr p') \<and>
      (\<forall>g. unat (searchAddr p) div unat pageSize \<le> g \<and> g \<le> unat (searchAddr p') div unat pageSize \<longrightarrow>
           \<not> page_free_at p' g))"
proof (intro conjI allI impI)
  fix c' p' assume f: "flush c p = Inr (c', p')"
  from flush_searchAddr[OF f]
  show "searchAddr p' = (if cache c \<noteq> 0 \<and> base c < searchAddr p then base c else searchAddr p)" .
  then show "searchAddr p' \<le> searchAddr p" by auto
next
  fix c' p'
  assume a: "allocToCache p = Inr (c', p') \<and> cache c' \<noteq> 0 \<and>
        unat (p_end p) * unat pallocChunkBytes \<le> 2 ^ 64"
  then have ok: "allocToCache p = Inr (c', p')" and ne: "cache c' \<noteq> 0"
    and bound: "unat (p_end p) * 4194304 \<le> 2 ^ 64"
    by (simp_all add: unat_pallocChunkBytes)
  note fw = allocToCache_forward[OF ok ne bound]
  from fw show "unat (searchAddr p) div unat pageSize \<le> unat (searchAddr p') div unat pageSize"
    by (simp only: unat_pageSize)
  from fw show "searchAddr p \<le> searchAddr p'" if "unat pageSize dvd unat (searchAddr p)"
    using that by (simp only: unat_pageSize)
  fix g
  assume "unat (searchAddr p) div unat pageSize \<le> g \<and> g \<le> unat (searchAddr p') div unat pageSize"
  then have "unat (searchAddr p) div 8192 \<le> g \<and> g \<le> unat (searchAddr p') div 8192"
    by (simp only: unat_pageSize)
  with fw show "\<not> page_free_at p' g" by blast
qed

theorem searchAddr_moves_witness:
  "flush spec_cache drained_alloc =
     Inr (fst (projr (flush spec_cache drained_alloc)), snd (projr (flush spec_cache drained_alloc))) \<and>
   searchAddr drained_alloc = 0x47E000 \<and>
   searchAddr (snd (projr (flush spec_cache drained_alloc))) = 0x400000 \<and>
   allocToCache spec_alloc = Inr (spec_cache, snd (projr (allocToCache spec_alloc))) \<and>
   cache spec_cache \<noteq> 0 \<and>
   unat (p_end spec_alloc) * unat pallocChunkBytes \<le> 2 ^ 64 \<and>
   unat pageSize dvd unat (searchAddr spec_alloc) \<and>
   searchAddr spec_alloc \<le> searchAddr (snd (projr (allocToCache spec_alloc))) \<and>
   \<not> page_free_at (snd (projr (allocToCache spec_alloc))) 512"
proof -
  have r1: "flush spec_cache drained_alloc =
     Inr (fst (projr (flush spec_cache drained_alloc)), snd (projr (flush spec_cache drained_alloc)))"
    using drained_flush_run by (cases "flush spec_cache drained_alloc") auto
  have s0: "searchAddr drained_alloc = 0x47E000" by (simp add: drained_alloc_def)
  have lower: "cache spec_cache \<noteq> 0 \<and> base spec_cache < searchAddr drained_alloc" by code_simp
  have b: "base spec_cache = 0x400000" by (simp add: spec_cache_def)
  have "\<not> isl (allocToCache spec_alloc)" "fst (projr (allocToCache spec_alloc)) = spec_cache"
    using spec_alloc_run by simp_all
  then have r2: "allocToCache spec_alloc = Inr (spec_cache, snd (projr (allocToCache spec_alloc)))"
    by (cases "allocToCache spec_alloc") auto
  have h: "cache spec_cache \<noteq> 0" using lower by simp
  have bound: "unat (p_end spec_alloc) * unat pallocChunkBytes \<le> 2 ^ 64"
    by (simp add: spec_alloc_def unat_pallocChunkBytes)
  have "(4194304 :: nat) = 8192 * 512" by simp
  then have "(8192 :: nat) dvd 4194304" by (simp only: dvd_triv_left)
  then have al: "unat pageSize dvd unat (searchAddr spec_alloc)"
    by (simp add: spec_alloc_def unat_pageSize)
  have pg: "unat (searchAddr spec_alloc) div unat pageSize \<le> 512 \<and>
      512 \<le> unat (searchAddr (snd (projr (allocToCache spec_alloc)))) div unat pageSize"
    using spec_alloc_run by (simp add: spec_alloc_def pageSize_def)
  from searchAddr_moves[of spec_cache drained_alloc, THEN conjunct1, rule_format, OF r1] lower b
  have f: "searchAddr (snd (projr (flush spec_cache drained_alloc))) = 0x400000" by simp
  note a = searchAddr_moves[of spec_cache spec_alloc, THEN conjunct2, rule_format, OF conjI[OF r2 conjI[OF h bound]]]
  from a al have fw: "searchAddr spec_alloc \<le> searchAddr (snd (projr (allocToCache spec_alloc)))"
    by blast
  from a pg have nf: "\<not> page_free_at (snd (projr (allocToCache spec_alloc))) 512"
    by blast
  from r1 s0 f r2 h bound al fw nf show ?thesis by blast
qed

text \<open>
  The claim as stated fails on the empty cache \<open>pageCache{}\<close>: its base 0 is lower than the
  search address \<open>0x400000\<close>, and \<open>flush\<close> returns at once without setting the search
  address to it.
\<close>

theorem flush_searchAddr_cex:
  "base pageCache_zero < searchAddr spec_alloc \<and>
   flush pageCache_zero spec_alloc = Inr (pageCache_zero, spec_alloc) \<and>
   searchAddr spec_alloc = 0x400000 \<and> searchAddr spec_alloc \<noteq> base pageCache_zero"
proof -
  have "flush pageCache_zero spec_alloc = Inr (pageCache_zero, spec_alloc)"
    by (simp add: flush_def empty_def pageCache_zero_def)
  moreover have "base pageCache_zero < searchAddr spec_alloc \<and>
     searchAddr spec_alloc = 0x400000 \<and> searchAddr spec_alloc \<noteq> base pageCache_zero"
    by code_simp
  ultimately show ?thesis by blast
qed


section \<open>Exhaustion of the central page allocator\<close>

lemma allocToCache_outcomes:
  assumes "allocToCache p = Inr (c, p')"
  shows "(c = pageCache_zero \<and> p' = p \<and> p_end p \<le> chunkIndex (searchAddr p)) \<or>
         (c = pageCache_zero \<and> p' = p\<lparr>searchAddr := maxSearchAddr\<rparr> \<and>
            chunkIndex (searchAddr p) < p_end p \<and>
            summary p (chunkIndex (searchAddr p)) = pallocSum_zero \<and> pageAlloc_find p 1 = 0) \<or>
         (chunkIndex (searchAddr p) < p_end p \<and>
            pallocData_find (chunks p (chunkIndex (searchAddr p))) 1 (chunkPageIndex (searchAddr p)) \<noteq> - 1 \<and>
            cache c = NOT (pages64 (chunks p (chunkIndex (searchAddr p)))
                        (pallocData_find (chunks p (chunkIndex (searchAddr p))) 1 (chunkPageIndex (searchAddr p))))) \<or>
         (chunkIndex (searchAddr p) < p_end p \<and> pageAlloc_find p 1 \<noteq> 0 \<and>
            cache c = NOT (pages64 (chunks p (chunkIndex (pageAlloc_find p 1)))
                        (chunkPageIndex (pageAlloc_find p 1))))"
  using assms
  by (auto simp: allocToCache_def Let_def not_le allocToCache_take_def split: if_splits)

lemma free_page_nonzero:
  assumes "free_page d i"
  shows "NOT (pallocBits d (i div 64)) \<noteq> 0"
proof -
  from assms have "bit (NOT (pallocBits d (i div 64))) (i mod 64)"
    by (simp add: free_page_def pbit_def bit_not_iff)
  then show ?thesis by auto
qed

lemma allocToCache_empty_cases:
  assumes ok: "allocToCache p = Inr (c, p')" and z: "cache c = 0"
    and bound: "unat (p_end p) * 4194304 \<le> 2 ^ 64"
  shows "c = pageCache_zero \<and>
         (p' = p \<and> p_end p \<le> chunkIndex (searchAddr p) \<or>
          p' = p\<lparr>searchAddr := maxSearchAddr\<rparr> \<and> chunkIndex (searchAddr p) < p_end p \<and>
            summary p (chunkIndex (searchAddr p)) = pallocSum_zero \<and> pageAlloc_find p 1 = 0)"
proof -
  let ?d = "chunks p (chunkIndex (searchAddr p))"
  let ?j = "pallocData_find ?d 1 (chunkPageIndex (searchAddr p))"
  let ?a = "pageAlloc_find p 1"
  have fast: False if "?j \<noteq> - 1" "cache c = NOT (pages64 ?d ?j)"
  proof -
    from pallocData_find_1[OF refl that(1)] have "free_page ?d (unat ?j)" by blast
    from free_page_nonzero[OF this] that(2) z show False by (simp add: pages64_def)
  qed
  have slow: False if "?a \<noteq> 0" "cache c = NOT (pages64 (chunks p (chunkIndex ?a)) (chunkPageIndex ?a))"
  proof -
    from pageAlloc_find_1[OF refl that(1) bound] obtain g where
      a: "unat ?a = g * 8192" and f: "page_free_at p g" by blast
    have k: "of_nat (g div 512) = chunkIndex ?a"
      by (rule of_nat_unat_eq) (simp add: unat_chunkIndex a pages_to_bytes)
    have "unat (chunkPageIndex ?a) = g mod 512"
      by (simp add: unat_chunkPageIndex a pages_to_bytes)
    with f k have "free_page (chunks p (chunkIndex ?a)) (unat (chunkPageIndex ?a))"
      by (simp add: page_free_at_def pallocChunkPages_def)
    from free_page_nonzero[OF this] that(2) z show False by (simp add: pages64_def)
  qed
  from allocToCache_outcomes[OF ok] fast slow show ?thesis by blast
qed

lemma chunk_of_last_page:
  assumes "G < n * (512 :: nat)"
  shows "(G div 64 * 64 * 8192 + 516096) div 4194304 < n"
proof -
  have "G div 64 * 64 * 8192 + 516096 = (G div 64 * 64 + 63) * 8192" by simp
  then have "(G div 64 * 64 * 8192 + 516096) div 4194304 = (G div 64 * 64 + 63) div 512"
    by (simp only: pages_to_bytes(2))
  also have "\<dots> = (G div 64 + 1 - 1) div 8"
  proof -
    have "(G div 64 * 64 + 63) div 64 = G div 64" by simp
    moreover have "(G div 64 * 64 + 63) div 512 = (G div 64 * 64 + 63) div 64 div 8"
      using div_mult2_eq[of "G div 64 * 64 + 63" 64 8] by simp
    ultimately show ?thesis by simp
  qed
  also have "\<dots> = G div 512"
    using div_mult2_eq[of G 64 8] by simp
  also have "\<dots> < n" using assms by (simp add: less_mult_imp_div_less)
  finally show ?thesis .
qed

lemma allocToCache_keeps_mapped:
  assumes ok: "allocToCache p = Inr (c, p')" and inv: "searchAddr_mapped p"
    and bound: "unat (p_end p) * 4194304 \<le> 2 ^ 64"
  shows "searchAddr_mapped p'"
proof (cases "cache c = 0")
  case True
  from allocToCache_empty_cases[OF ok True bound] inv show ?thesis
    by (auto simp: searchAddr_mapped_def)
next
  case False
  from allocToCache_found[OF ok False bound] obtain G where
    g2: "G < unat (p_end p) * 512"
    and g4: "unat (base c) = G div 64 * 64 * 8192"
    and g6: "p' = snd (allocToCache_take p (of_nat (G div 512)) c)"
    by blast
  let ?B = "G div 64 * 64"
  have "G div 64 < unat (p_end p) * 8"
    using g2 by (simp add: less_mult_imp_div_less)
  then have "(G div 64 + 1) * 64 \<le> unat (p_end p) * 8 * 64"
    by (intro mult_le_mono1) simp
  then have B64: "?B + 64 \<le> unat (p_end p) * 512" by simp
  then have "(?B + 64) * 8192 \<le> unat (p_end p) * 512 * 8192"
    by (intro mult_le_mono1)
  with bound have "?B * 8192 + 516096 < 2 ^ 64" by simp
  then have "unat (base c) + unat (pageSize * (pageCachePages - 1)) < 2 ^ 64"
    by (simp only: g4 last_page_offset)
  then have "unat (base c + pageSize * (pageCachePages - 1)) =
      unat (base c) + unat (pageSize * (pageCachePages - 1))"
    by (rule unat_add64)
  then have sa': "unat (searchAddr p') = ?B * 8192 + 516096"
    by (simp only: g6 allocToCache_take_fields(2) g4 last_page_offset)
  have e: "p_end p' = p_end p" by (simp only: g6 allocToCache_take_fields(3))
  have "unat (chunkIndex (searchAddr p')) < unat (p_end p')"
    unfolding unat_chunkIndex sa' e by (rule chunk_of_last_page[OF g2])
  then show ?thesis by (simp add: searchAddr_mapped_def word_less_nat_alt)
qed

lemma flush_loop_step_end:
  assumes "i < 64" and "flush_loop c ci pi i p = Inr p'"
  shows "\<exists>p2. flush_loop c ci pi (Suc i) p2 = Inr p' \<and> p_end p2 = p_end p"
  using assms
  by (subst (asm) flush_loop.simps) (auto split: if_splits sum.splits)

lemma flush_loop_end:
  assumes "flush_loop c ci pi i p = Inr p'"
  shows "p_end p' = p_end p"
  using assms
proof (induction "64 - i" arbitrary: i p)
  case 0
  then have "\<not> i < 64" by simp
  with "0.prems" show ?case by (subst (asm) flush_loop.simps) simp
next
  case (Suc n)
  then have i: "i < 64" and n: "n = 64 - Suc i" by auto
  from flush_loop_step_end[OF i Suc.prems] obtain p2 where
    "flush_loop c ci pi (Suc i) p2 = Inr p'" "p_end p2 = p_end p" by blast
  with Suc.hyps(1)[OF n] show ?case by simp
qed

lemma flush_keeps_mapped:
  assumes ok: "flush c p = Inr (c', p')" and inv: "searchAddr_mapped p"
    and b: "chunkIndex (base c) < p_end p"
  shows "searchAddr_mapped p'"
proof (cases "cache c = 0")
  case True
  with ok inv show ?thesis by (simp add: flush_def empty_def)
next
  case False
  with ok obtain p1 where l: "flush_loop c (chunkIndex (base c)) (chunkPageIndex (base c)) 0 p = Inr p1"
    and p': "p' = update (if lessThan_offAddr (base c) (searchAddr p1) then p1\<lparr>searchAddr := base c\<rparr> else p1)
               (base c) pageCachePages False False"
    by (auto simp: flush_def empty_def Let_def split: sum.splits)
  from flush_loop_end[OF l] have e: "p_end p' = p_end p" by (simp add: p')
  from flush_searchAddr[OF ok] inv b e show ?thesis
    by (auto simp: searchAddr_mapped_def)
qed

text \<open>
  Claim C4. The search address of an allocator in use lies in a tracked chunk or is the
  sentinel \<open>maxSearchAddr\<close> (\<open>searchAddr_mapped\<close>); \<open>allocToCache\<close> keeps it so, and so
  does \<open>flush\<close> of a cache whose base lies in a tracked chunk (\<open>flush_keeps_mapped\<close>).
  For such an allocator, on both exhaustion paths, the immediate return taken when
  \<open>chunkIndex(searchAddr) >= end\<close> and the failure of \<open>find(1)\<close> on the slow path,
  \<open>allocToCache\<close> returns the empty cache \<open>pageCache{}\<close>, whose base and two bitmaps are
  0, and the search address is \<open>maxSearchAddr\<close> afterwards; if \<open>end\<close> is at most the chunk
  index of \<open>maxSearchAddr\<close>, the next call takes the immediate return. Conversely, the
  tracked chunks lying within the 64-bit address space, a call that returns a cache
  without a free page has returned \<open>pageCache{}\<close> and left the search address at
  \<open>maxSearchAddr\<close>.
\<close>

theorem allocToCache_exhaustion_sentinel:
  assumes inv: "searchAddr_mapped p"
  shows "base pageCache_zero = 0 \<and> cache pageCache_zero = 0 \<and> scav pageCache_zero = 0 \<and>
   (p_end p \<le> chunkIndex (searchAddr p) \<or>
    summary p (chunkIndex (searchAddr p)) = pallocSum_zero \<and> pageAlloc_find p 1 = 0 \<longrightarrow>
      allocToCache p = Inr (pageCache_zero, p\<lparr>searchAddr := maxSearchAddr\<rparr>)) \<and>
   (p_end p \<le> chunkIndex maxSearchAddr \<longrightarrow>
      allocToCache (p\<lparr>searchAddr := maxSearchAddr\<rparr>) =
        Inr (pageCache_zero, p\<lparr>searchAddr := maxSearchAddr\<rparr>)) \<and>
   (\<forall>c p'. allocToCache p = Inr (c, p') \<and> unat (p_end p) * unat pallocChunkBytes \<le> 2 ^ 64 \<longrightarrow>
      searchAddr_mapped p' \<and>
      (cache c = 0 \<longrightarrow> c = pageCache_zero \<and> p' = p\<lparr>searchAddr := maxSearchAddr\<rparr>))"
proof (intro conjI impI allI)
  show "base pageCache_zero = 0" "cache pageCache_zero = 0" "scav pageCache_zero = 0"
    by (simp_all add: pageCache_zero_def)
  have same: "p\<lparr>searchAddr := maxSearchAddr\<rparr> = p" if "p_end p \<le> chunkIndex (searchAddr p)"
  proof -
    from that inv have "searchAddr p = maxSearchAddr"
      by (auto simp: searchAddr_mapped_def)
    then have "p\<lparr>searchAddr := maxSearchAddr\<rparr> = p\<lparr>searchAddr := searchAddr p\<rparr>" by simp
    then show ?thesis by simp
  qed
  show "allocToCache p = Inr (pageCache_zero, p\<lparr>searchAddr := maxSearchAddr\<rparr>)"
    if "p_end p \<le> chunkIndex (searchAddr p) \<or>
        summary p (chunkIndex (searchAddr p)) = pallocSum_zero \<and> pageAlloc_find p 1 = 0"
  proof (cases "p_end p \<le> chunkIndex (searchAddr p)")
    case True
    then have "allocToCache p = Inr (pageCache_zero, p)" by (simp add: allocToCache_def)
    with same[OF True] show ?thesis by simp
  next
    case False
    with that show ?thesis by (auto simp: allocToCache_def Let_def)
  qed
  show "allocToCache (p\<lparr>searchAddr := maxSearchAddr\<rparr>) = Inr (pageCache_zero, p\<lparr>searchAddr := maxSearchAddr\<rparr>)"
    if "p_end p \<le> chunkIndex maxSearchAddr"
    using that by (simp add: allocToCache_def)
  fix c p'
  assume a: "allocToCache p = Inr (c, p') \<and> unat (p_end p) * unat pallocChunkBytes \<le> 2 ^ 64"
  then have ok: "allocToCache p = Inr (c, p')" and bound: "unat (p_end p) * 4194304 \<le> 2 ^ 64"
    by (simp_all add: unat_pallocChunkBytes)
  show "searchAddr_mapped p'" by (rule allocToCache_keeps_mapped[OF ok inv bound])
  show "c = pageCache_zero" if "cache c = 0"
    using allocToCache_empty_cases[OF ok that bound] by blast
  show "p' = p\<lparr>searchAddr := maxSearchAddr\<rparr>" if "cache c = 0"
    using allocToCache_empty_cases[OF ok that bound] same by auto
qed

theorem allocToCache_exhaustion_sentinel_witness:
  "searchAddr_mapped full_alloc \<and>
   summary full_alloc (chunkIndex (searchAddr full_alloc)) = pallocSum_zero \<and>
   pageAlloc_find full_alloc 1 = 0 \<and>
   allocToCache full_alloc = Inr (pageCache_zero, oom_alloc) \<and>
   unat (p_end full_alloc) * unat pallocChunkBytes \<le> 2 ^ 64 \<and>
   searchAddr oom_alloc = maxSearchAddr \<and>
   searchAddr_mapped oom_alloc \<and>
   p_end oom_alloc \<le> chunkIndex (searchAddr oom_alloc) \<and>
   allocToCache oom_alloc = Inr (pageCache_zero, oom_alloc) \<and>
   searchAddr_mapped spec_alloc \<and>
   allocToCache spec_alloc = Inr (spec_cache, snd (projr (allocToCache spec_alloc))) \<and>
   unat (p_end spec_alloc) * unat pallocChunkBytes \<le> 2 ^ 64 \<and>
   searchAddr_mapped (snd (projr (allocToCache spec_alloc)))"
proof -
  have m1: "searchAddr_mapped full_alloc" by code_simp
  have m2: "searchAddr_mapped oom_alloc"
    by (simp add: searchAddr_mapped_def oom_alloc_def)
  have m3: "searchAddr_mapped spec_alloc" by code_simp
  have h3: "summary full_alloc (chunkIndex (searchAddr full_alloc)) = pallocSum_zero" by code_simp
  have "\<not> page_free_at full_alloc g" for g
    by (simp add: page_free_at_def full_alloc_def full_chunk_def free_page_def pbit_def)
  then have "find (\<lambda>g. list_all (page_free_at full_alloc) [g..<g + unat (1 :: uintptr)]) xs = None" for xs
    by (simp add: find_None_iff)
  then have h4: "pageAlloc_find full_alloc 1 = 0"
    by (simp add: pageAlloc_find_def)
  have b1: "unat (p_end full_alloc) * unat pallocChunkBytes \<le> 2 ^ 64"
    by (simp add: full_alloc_def unat_pallocChunkBytes)
  have b3: "unat (p_end spec_alloc) * unat pallocChunkBytes \<le> 2 ^ 64"
    by (simp add: spec_alloc_def unat_pallocChunkBytes)
  have s: "searchAddr oom_alloc = maxSearchAddr" by (simp add: oom_alloc_def)
  have e: "p_end oom_alloc \<le> chunkIndex (searchAddr oom_alloc)" by code_simp
  have o1: "full_alloc\<lparr>searchAddr := maxSearchAddr\<rparr> = oom_alloc" by (simp add: oom_alloc_def)
  have o2: "oom_alloc\<lparr>searchAddr := maxSearchAddr\<rparr> = oom_alloc" by (simp add: oom_alloc_def)
  from allocToCache_exhaustion_sentinel[OF m1] h3 h4
  have "allocToCache full_alloc = Inr (pageCache_zero, full_alloc\<lparr>searchAddr := maxSearchAddr\<rparr>)"
    by blast
  then have a: "allocToCache full_alloc = Inr (pageCache_zero, oom_alloc)"
    unfolding o1 .
  from allocToCache_exhaustion_sentinel[OF m2] e
  have "allocToCache oom_alloc = Inr (pageCache_zero, oom_alloc\<lparr>searchAddr := maxSearchAddr\<rparr>)"
    by blast
  then have b: "allocToCache oom_alloc = Inr (pageCache_zero, oom_alloc)"
    unfolding o2 .
  have "\<not> isl (allocToCache spec_alloc)" "fst (projr (allocToCache spec_alloc)) = spec_cache"
    using spec_alloc_run by simp_all
  then have r: "allocToCache spec_alloc = Inr (spec_cache, snd (projr (allocToCache spec_alloc)))"
    by (cases "allocToCache spec_alloc") auto
  from allocToCache_exhaustion_sentinel[OF m3] r b3
  have c: "searchAddr_mapped (snd (projr (allocToCache spec_alloc)))"
    by blast
  from m1 h3 h4 a b1 s m2 e b m3 r b3 c show ?thesis by blast
qed

end
